theory Spec2Isabelle
  imports Main "HOL-Library.Word"
begin

unbundle bit_operations_syntax

section \<open>Bytes, errors and the two buffers\<close>

text \<open>
  The program (\<^verbatim>\<open>mlod-p3d.cpp\<close>) reads an MLOD model file into nested structs and
  writes the structs back. A byte is an \<open>8 word\<close>. A \<^verbatim>\<open>float\<close> is never computed
  with: the code only copies its four bytes, so a float is kept as the 32-bit pattern
  of its object representation (\<open>0x3F800000\<close> is \<open>1.0f\<close>, \<open>0\<close> is \<open>0.0f\<close>). A \<^verbatim>\<open>bool\<close>
  and a \<^verbatim>\<open>char\<close> are likewise the one byte the reader copies. Offsets and sizes are
  natural numbers: the reader's \<^verbatim>\<open>begin + current_offset + sizeof(T)\<close> stays far below
  \<open>2^64\<close> for every buffer that fits in memory, and allocation is taken to succeed.
\<close>

type_synonym byte = "8 word"

text \<open>\<^verbatim>\<open>class mlod_error { std::string error; }\<close>\<close>

type_synonym mlod_error = string

text \<open>\<^verbatim>\<open>using mlod_signature = std::array<char, 4>\<close>\<close>

type_synonym mlod_signature = "byte \<times> byte \<times> byte \<times> byte"

record binary_writer =
  w_data :: "byte list"
  write_offset :: nat

definition binary_writer_init :: binary_writer where
  "binary_writer_init = \<lparr>w_data = [], write_offset = 0\<rparr>"

text \<open>
  \<^verbatim>\<open>binary_writer::write\<close>: grow \<^verbatim>\<open>data\<close> by \<^verbatim>\<open>sizeof(T)\<close> zero bytes, store the value at
  \<^verbatim>\<open>write_offset\<close>, advance \<^verbatim>\<open>write_offset\<close>. The value arrives as its bytes.
\<close>

definition binary_writer_write :: "byte list \<Rightarrow> binary_writer \<Rightarrow> binary_writer" where
  "binary_writer_write d w =
     (let resized = w_data w @ replicate (length d) 0
      in \<lparr>w_data = take (write_offset w) resized @ d @ drop (write_offset w + length d) resized,
          write_offset = write_offset w + length d\<rparr>)"

text \<open>
  \<^verbatim>\<open>binary_reader\<close>: \<open>buffer\<close> holds the bytes of \<^verbatim>\<open>[begin, end)\<close>.
\<close>

record binary_reader =
  buffer :: "byte list"
  current_offset :: nat

definition binary_reader_init :: "byte list \<Rightarrow> binary_reader" where
  "binary_reader_init d = \<lparr>buffer = d, current_offset = 0\<rparr>"

text \<open>
  \<^verbatim>\<open>binary_reader::read<T>\<close> with \<open>n = sizeof(T)\<close>: \<open>None\<close> is \<^verbatim>\<open>return false\<close> (the
  reader and \<^verbatim>\<open>out\<close> untouched), \<open>Some bs\<close> is \<^verbatim>\<open>return true\<close> with the \<open>n\<close> bytes copied to
  \<^verbatim>\<open>out\<close>.
\<close>

definition binary_reader_read :: "nat \<Rightarrow> binary_reader \<Rightarrow> byte list option \<times> binary_reader" where
  "binary_reader_read n r =
     (if current_offset r + n > length (buffer r) then (None, r)
      else (Some (take n (drop (current_offset r) (buffer r))),
            r\<lparr>current_offset := current_offset r + n\<rparr>))"

subsection \<open>Object representations (little-endian, packed)\<close>

definition u8_of :: "byte list \<Rightarrow> byte" where
  "u8_of bs = (case bs of [b] \<Rightarrow> b | _ \<Rightarrow> 0)"

definition u32_of :: "byte list \<Rightarrow> 32 word" where
  "u32_of bs = (case bs of
       [b0, b1, b2, b3] \<Rightarrow>
         ucast b0 OR push_bit 8 (ucast b1) OR push_bit 16 (ucast b2) OR push_bit 24 (ucast b3)
     | _ \<Rightarrow> 0)"

definition u32_bytes :: "32 word \<Rightarrow> byte list" where
  "u32_bytes w = [ucast w, ucast (drop_bit 8 w), ucast (drop_bit 16 w), ucast (drop_bit 24 w)]"

definition signature_of :: "byte list \<Rightarrow> mlod_signature" where
  "signature_of bs = (case bs of [a, b, c, d] \<Rightarrow> (a, b, c, d) | _ \<Rightarrow> (0, 0, 0, 0))"

definition signature_bytes :: "mlod_signature \<Rightarrow> byte list" where
  "signature_bytes s = (case s of (a, b, c, d) \<Rightarrow> [a, b, c, d])"

text \<open>A string literal of the source as the bytes of a \<^verbatim>\<open>std::string\<close>.\<close>

definition str :: "string \<Rightarrow> byte list" where
  "str s = map of_char s"

text \<open>\<^verbatim>\<open>std::vector::resize(n)\<close>: keep the first \<open>n\<close> elements, pad with value-initialised ones.\<close>

definition resize :: "nat \<Rightarrow> 'a \<Rightarrow> 'a list \<Rightarrow> 'a list" where
  "resize n d xs = take n xs @ replicate (n - length xs) d"

section \<open>The shape of a parse function\<close>

text \<open>
  Every \<^verbatim>\<open>static std::optional<mlod_error> parse(binary_reader& reader, T& out)\<close> takes
  the reader and the object it fills, and returns the error (if any) with both as it
  left them: on failure \<^verbatim>\<open>out\<close> stays partly filled, as in the source.
\<close>

type_synonym 'a parser = "binary_reader \<Rightarrow> 'a \<Rightarrow> mlod_error option \<times> binary_reader \<times> 'a"

text \<open>\<^verbatim>\<open>if (!reader.read(out.f)) return mlod_error(msg);\<close>\<close>

definition read_field :: "nat \<Rightarrow> mlod_error \<Rightarrow> (byte list \<Rightarrow> 'a \<Rightarrow> 'a) \<Rightarrow> 'a parser" where
  "read_field n msg store r out =
     (case binary_reader_read n r of
        (None, r') \<Rightarrow> (Some msg, r', out)
      | (Some bs, r') \<Rightarrow> (None, r', store bs out))"

text \<open>\<^verbatim>\<open>auto err = T::parse(reader, out.f); if (err.has_value()) return err;\<close>\<close>

definition in_field :: "('a \<Rightarrow> 'b) \<Rightarrow> ('b \<Rightarrow> 'a \<Rightarrow> 'a) \<Rightarrow> 'b parser \<Rightarrow> 'a parser" where
  "in_field get put p r out = (case p r (get out) of (err, r', v) \<Rightarrow> (err, r', put v out))"

text \<open>A statement that cannot fail, such as \<^verbatim>\<open>out.points.resize(out.num_points);\<close>\<close>

definition assign :: "('a \<Rightarrow> 'a) \<Rightarrow> 'a parser" where
  "assign f r out = (None, r, f out)"

text \<open>\<^verbatim>\<open>for (auto& e : vec) { auto err = p(reader, e); if (err.has_value()) return err; }\<close>\<close>

fun for_each :: "'a parser \<Rightarrow> 'a list parser" where
  "for_each p r [] = (None, r, [])"
| "for_each p r (e # es) =
     (case p r e of
        (Some err, r', e') \<Rightarrow> (Some err, r', e' # es)
      | (None, r', e') \<Rightarrow> (case for_each p r' es of (res, r'', es') \<Rightarrow> (res, r'', e' # es')))"

text \<open>Statements in sequence; the first error returns.\<close>

fun chain :: "'a parser list \<Rightarrow> 'a parser" where
  "chain [] r out = (None, r, out)"
| "chain (p # ps) r out =
     (case p r out of
        (Some err, r', out') \<Rightarrow> (Some err, r', out')
      | (None, r', out') \<Rightarrow> chain ps r' out')"

section \<open>The structs and their parse and write functions\<close>

subsection \<open>vector3\<close>

record vector3 =
  vec_x :: "32 word"
  vec_y :: "32 word"
  vec_z :: "32 word"

definition vector3_zero :: vector3 where
  "vector3_zero = \<lparr>vec_x = 0, vec_y = 0, vec_z = 0\<rparr>"

definition vector3_parse :: "vector3 parser" where
  "vector3_parse = chain
     [read_field 4 ''failed to read vector3.x'' (\<lambda>bs v. v\<lparr>vec_x := u32_of bs\<rparr>),
      read_field 4 ''failed to read vector3.y'' (\<lambda>bs v. v\<lparr>vec_y := u32_of bs\<rparr>),
      read_field 4 ''failed to read vector3.z'' (\<lambda>bs v. v\<lparr>vec_z := u32_of bs\<rparr>)]"

definition vector3_write :: "vector3 \<Rightarrow> binary_writer \<Rightarrow> binary_writer" where
  "vector3_write v w =
     binary_writer_write (u32_bytes (vec_z v))
       (binary_writer_write (u32_bytes (vec_y v))
         (binary_writer_write (u32_bytes (vec_x v)) w))"

subsection \<open>arma\_string\<close>

text \<open>\<^verbatim>\<open>struct arma_string { std::string string; }\<close>: the bytes of the string.\<close>

type_synonym arma_string = "byte list"

text \<open>The \<^verbatim>\<open>do { ... } while (true)\<close> of \<^verbatim>\<open>arma_string::parse\<close>.\<close>

function arma_string_loop :: "arma_string parser" where
  "arma_string_loop r s =
     (case binary_reader_read 1 r of
        (None, r') \<Rightarrow> (Some ''failed to read arma_string[n]'', r', s)
      | (Some bs, r') \<Rightarrow>
          (if u8_of bs \<noteq> 0 then arma_string_loop r' (s @ [u8_of bs]) else (None, r', s)))"
  by pat_completeness auto
termination
  by (relation "measure (\<lambda>(r, s). length (buffer r) - current_offset r)")
     (auto simp: binary_reader_read_def split: if_splits)

definition arma_string_parse :: "arma_string parser" where
  "arma_string_parse r out = arma_string_loop r []"

text \<open>\<^verbatim>\<open>for (const auto& e : vec) { f(writer, e); }\<close>\<close>

fun write_each :: "('a \<Rightarrow> binary_writer \<Rightarrow> binary_writer) \<Rightarrow> 'a list \<Rightarrow> binary_writer \<Rightarrow> binary_writer" where
  "write_each f [] w = w"
| "write_each f (e # es) w = write_each f es (f e w)"

definition arma_string_write :: "arma_string \<Rightarrow> binary_writer \<Rightarrow> binary_writer" where
  "arma_string_write s w =
     binary_writer_write [0] (write_each (\<lambda>ch. binary_writer_write [ch]) s w)"

subsection \<open>vert\_descriptor\<close>

record vert_descriptor =
  point_index :: "32 word"
  normal_index :: "32 word"
  vd_u :: "32 word"
  vd_v :: "32 word"

definition vert_descriptor_zero :: vert_descriptor where
  "vert_descriptor_zero = \<lparr>point_index = 0, normal_index = 0, vd_u = 0, vd_v = 0\<rparr>"

text \<open>The packed 16-byte object, as \<^verbatim>\<open>reader.read(desc)\<close> and \<^verbatim>\<open>writer.write(desc)\<close> copy it.\<close>

definition vert_descriptor_of :: "byte list \<Rightarrow> vert_descriptor" where
  "vert_descriptor_of bs =
     \<lparr>point_index = u32_of (take 4 bs), normal_index = u32_of (take 4 (drop 4 bs)),
      vd_u = u32_of (take 4 (drop 8 bs)), vd_v = u32_of (take 4 (drop 12 bs))\<rparr>"

definition vert_descriptor_bytes :: "vert_descriptor \<Rightarrow> byte list" where
  "vert_descriptor_bytes d =
     u32_bytes (point_index d) @ u32_bytes (normal_index d) @ u32_bytes (vd_u d) @ u32_bytes (vd_v d)"

definition vert_descriptor_parse :: "vert_descriptor parser" where
  "vert_descriptor_parse = chain
     [read_field 4 ''failed to read vert_descriptor.point_index'' (\<lambda>bs d. d\<lparr>point_index := u32_of bs\<rparr>),
      read_field 4 ''failed to read vert_descriptor.normal_index'' (\<lambda>bs d. d\<lparr>normal_index := u32_of bs\<rparr>),
      read_field 4 ''failed to read vert_descriptor.u'' (\<lambda>bs d. d\<lparr>vd_u := u32_of bs\<rparr>),
      read_field 4 ''failed to read vert_descriptor.v'' (\<lambda>bs d. d\<lparr>vd_v := u32_of bs\<rparr>)]"

definition vert_descriptor_write :: "vert_descriptor \<Rightarrow> binary_writer \<Rightarrow> binary_writer" where
  "vert_descriptor_write d w =
     binary_writer_write (u32_bytes (vd_v d))
       (binary_writer_write (u32_bytes (vd_u d))
         (binary_writer_write (u32_bytes (normal_index d))
           (binary_writer_write (u32_bytes (point_index d)) w)))"

subsection \<open>mlod\_face\<close>

record mlod_face =
  face_type :: "32 word"
  vertices :: "vert_descriptor list"
  face_flags :: "32 word"
  texture_name :: arma_string
  material_name :: arma_string

definition mlod_face_zero :: mlod_face where
  "mlod_face_zero =
     \<lparr>face_type = 0, vertices = [], face_flags = 0, texture_name = [], material_name = []\<rparr>"

definition mlod_face_parse :: "mlod_face parser" where
  "mlod_face_parse = chain
     [read_field 4 ''failed to read mlod_face.face_type'' (\<lambda>bs f. f\<lparr>face_type := u32_of bs\<rparr>),
      assign (\<lambda>f. f\<lparr>vertices := resize 4 vert_descriptor_zero (vertices f)\<rparr>),
      in_field vertices (\<lambda>v f. f\<lparr>vertices := v\<rparr>)
        (for_each (read_field 16 ''failed to read mlod_face.vertices[n]'' (\<lambda>bs d. vert_descriptor_of bs))),
      read_field 4 ''failed to read mlod_face.face_flags'' (\<lambda>bs f. f\<lparr>face_flags := u32_of bs\<rparr>),
      in_field texture_name (\<lambda>v f. f\<lparr>texture_name := v\<rparr>) arma_string_parse,
      in_field material_name (\<lambda>v f. f\<lparr>material_name := v\<rparr>) arma_string_parse]"

definition mlod_face_write :: "mlod_face \<Rightarrow> binary_writer \<Rightarrow> binary_writer" where
  "mlod_face_write f w =
     arma_string_write (material_name f)
       (arma_string_write (texture_name f)
         (binary_writer_write (u32_bytes (face_flags f))
           (write_each (\<lambda>d. binary_writer_write (vert_descriptor_bytes d)) (vertices f)
             (binary_writer_write (u32_bytes (face_type f)) w))))"

subsection \<open>mlod\_point\<close>

record mlod_point =
  pos :: vector3
  point_flags :: "32 word"

definition mlod_point_zero :: mlod_point where
  "mlod_point_zero = \<lparr>pos = vector3_zero, point_flags = 0\<rparr>"

definition mlod_point_parse :: "mlod_point parser" where
  "mlod_point_parse = chain
     [in_field pos (\<lambda>v p. p\<lparr>pos := v\<rparr>) vector3_parse,
      read_field 4 ''failed to read mlod_point.flags'' (\<lambda>bs p. p\<lparr>point_flags := u32_of bs\<rparr>)]"

definition mlod_point_write :: "mlod_point \<Rightarrow> binary_writer \<Rightarrow> binary_writer" where
  "mlod_point_write p w = binary_writer_write (u32_bytes (point_flags p)) (vector3_write (pos p) w)"

subsection \<open>mlod\_tag\<close>

record mlod_tag =
  active :: byte
  tag_name :: arma_string
  data_length :: "32 word"
  tag_data :: "byte list"

definition mlod_tag_zero :: mlod_tag where
  "mlod_tag_zero = \<lparr>active = 0, tag_name = [], data_length = 0, tag_data = []\<rparr>"

definition mlod_tag_parse :: "mlod_tag parser" where
  "mlod_tag_parse = chain
     [read_field 1 ''failed to read mlod_tag.active'' (\<lambda>bs t. t\<lparr>active := u8_of bs\<rparr>),
      in_field tag_name (\<lambda>v t. t\<lparr>tag_name := v\<rparr>) arma_string_parse,
      read_field 4 ''failed to read mlod_tag.data_length'' (\<lambda>bs t. t\<lparr>data_length := u32_of bs\<rparr>),
      assign (\<lambda>t. t\<lparr>tag_data := resize (unat (data_length t)) 0 (tag_data t)\<rparr>),
      in_field tag_data (\<lambda>v t. t\<lparr>tag_data := v\<rparr>)
        (for_each (read_field 1 ''failed to read mlod_tag.data[m]'' (\<lambda>bs b. u8_of bs)))]"

definition mlod_tag_write :: "mlod_tag \<Rightarrow> binary_writer \<Rightarrow> binary_writer" where
  "mlod_tag_write t w =
     write_each (\<lambda>b. binary_writer_write [b]) (tag_data t)
       (binary_writer_write (u32_bytes (data_length t))
         (arma_string_write (tag_name t)
           (binary_writer_write [active t] w)))"

subsection \<open>property\_tag and mass\_tag\<close>

text \<open>
  \<^verbatim>\<open>for (auto& e : vec) { reader.read(e); }\<close>: the result of the read is not looked at; an
  element whose read fails keeps its value.
\<close>

fun read_each :: "nat \<Rightarrow> (byte list \<Rightarrow> 'a) \<Rightarrow> binary_reader \<Rightarrow> 'a list \<Rightarrow> binary_reader \<times> 'a list" where
  "read_each n conv r [] = (r, [])"
| "read_each n conv r (e # es) =
     (case binary_reader_read n r of
        (None, r') \<Rightarrow> (case read_each n conv r' es of (r'', es') \<Rightarrow> (r'', e # es'))
      | (Some bs, r') \<Rightarrow> (case read_each n conv r' es of (r'', es') \<Rightarrow> (r'', conv bs # es')))"

record property_tag =
  prop_key :: "byte list"
  prop_value :: "byte list"

definition property_tag_of :: "mlod_tag \<Rightarrow> property_tag" where
  "property_tag_of parent_tag =
     (let reader = binary_reader_init (tag_data parent_tag);
          (reader1, k) = read_each 1 u8_of reader (resize 64 0 []);
          (reader2, v) = read_each 1 u8_of reader1 (resize 64 0 [])
      in \<lparr>prop_key = k, prop_value = v\<rparr>)"

record mass_tag =
  mass :: "32 word list"

definition mass_tag_default :: mass_tag where
  "mass_tag_default = \<lparr>mass = []\<rparr>"

definition mass_tag_of :: "mlod_tag \<Rightarrow> 32 word \<Rightarrow> mass_tag" where
  "mass_tag_of parent_tag num_points =
     (let reader = binary_reader_init (tag_data parent_tag);
          (reader1, m) = read_each 4 u32_of reader (resize (unat num_points) 0 [])
      in \<lparr>mass = m\<rparr>)"

subsection \<open>mlod\_lod\<close>

record mlod_lod =
  lod_signature :: mlod_signature
  minor_version :: "32 word"
  major_version :: "32 word"
  num_points :: "32 word"
  num_face_normals :: "32 word"
  num_faces :: "32 word"
  lod_flags :: "32 word"
  points :: "mlod_point list"
  normals :: "vector3 list"
  faces :: "mlod_face list"
  tag_sig :: mlod_signature
  tags :: "mlod_tag list"
  resolution :: "32 word"
  property_tags :: "property_tag list"
  lod_mass :: mass_tag

definition mlod_lod_default :: mlod_lod where
  "mlod_lod_default =
     \<lparr>lod_signature = (0, 0, 0, 0), minor_version = 0, major_version = 0, num_points = 0,
      num_face_normals = 0, num_faces = 0, lod_flags = 0, points = [], normals = [], faces = [],
      tag_sig = (0, 0, 0, 0), tags = [], resolution = 0, property_tags = [],
      lod_mass = mass_tag_default\<rparr>"

text \<open>What one round of the tag loop does with the tag it has parsed.\<close>

definition store_tag :: "mlod_tag \<Rightarrow> mlod_lod \<Rightarrow> mlod_lod" where
  "store_tag tag out =
     (let out1 = out\<lparr>tags := tags out @ [tag]\<rparr>
      in if tag_name tag = str ''#Property#''
           then out1\<lparr>property_tags := property_tags out1 @ [property_tag_of tag]\<rparr>
         else if tag_name tag = str ''#Mass#''
           then out1\<lparr>lod_mass := mass_tag_of tag (num_points out1)\<rparr>
         else out1)"

section \<open>How the parse functions move the reader\<close>

text \<open>The bytes from the reader's position to the end of the buffer, and their number.\<close>

definition rest :: "binary_reader \<Rightarrow> byte list" where
  "rest r = drop (current_offset r) (buffer r)"

definition remaining :: "binary_reader \<Rightarrow> nat" where
  "remaining r = length (buffer r) - current_offset r"

text \<open>
  The messages \<^verbatim>\<open>mlod_p3d::parse\<close> can return: every string literal that the source
  passes to \<^verbatim>\<open>mlod_error\<close>, but for the four of \<^verbatim>\<open>vert_descriptor::parse\<close>, which no
  function calls (a face reads each vertex descriptor in one piece).
\<close>

definition mlod_error_messages :: "mlod_error list" where
  "mlod_error_messages =
     [''failed to read vector3.x'', ''failed to read vector3.y'', ''failed to read vector3.z'',
      ''failed to read arma_string[n]'',
      ''failed to read mlod_face.face_type'', ''failed to read mlod_face.vertices[n]'',
      ''failed to read mlod_face.face_flags'', ''failed to read mlod_point.flags'',
      ''failed to read mlod_tag.active'', ''failed to read mlod_tag.data_length'',
      ''failed to read mlod_tag.data[m]'',
      ''failed to read mlod_lod.signature'', ''failed to read mlod_lod.minor_version'',
      ''failed to read mlod_lod.major_version'', ''failed to read mlod_lod.num_points'',
      ''failed to read mlod_lod.num_face_normals'', ''failed to read mlod_lod.num_faces'',
      ''failed to read mlod_lod.flags'', ''failed to read mlod_lod.tag_sig'',
      ''failed to read mlod_lod.resolution'',
      ''failed to read p3d_header.signature'', ''failed to read p3d_header.version'',
      ''failed to read p3d_header.lod_count'']"

text \<open>
  One step of parsing, from reader \<open>r\<close> to \<open>r'\<close> with outcome \<open>e\<close>: the buffer is the same, the
  position has not gone back and is still inside the buffer, and an error is one of
  the messages above, returned where fewer bytes remain than the largest read (the 16
  of a vertex descriptor) takes.
\<close>

definition advances :: "binary_reader \<Rightarrow> mlod_error option \<Rightarrow> binary_reader \<Rightarrow> bool" where
  "advances r e r' \<longleftrightarrow>
     buffer r' = buffer r \<and> current_offset r \<le> current_offset r' \<and>
     (current_offset r \<le> length (buffer r) \<longrightarrow> current_offset r' \<le> length (buffer r)) \<and>
     (\<forall>m. e = Some m \<longrightarrow> m \<in> set mlod_error_messages \<and> remaining r' < 16)"

definition forward :: "'a parser \<Rightarrow> bool" where
  "forward p \<longleftrightarrow> (\<forall>r x e r' x'. p r x = (e, r', x') \<longrightarrow> advances r e r')"

text \<open>
  A parse that succeeds has looked only at the bytes before its final position: on any
  buffer \<open>B\<close> with the same bytes up to there it returns the same.
\<close>

definition prefix_local :: "'a parser \<Rightarrow> bool" where
  "prefix_local p \<longleftrightarrow>
     (\<forall>r x r' x' B. p r x = (None, r', x') \<longrightarrow>
        take (current_offset r') B = take (current_offset r') (buffer r) \<longrightarrow>
        current_offset r' \<le> length B \<longrightarrow>
        p (r\<lparr>buffer := B\<rparr>) x = (None, r'\<lparr>buffer := B\<rparr>, x'))"

lemma read_None_iff:
  "binary_reader_read n r = (None, r') \<longleftrightarrow> length (buffer r) < current_offset r + n \<and> r' = r"
  by (auto simp: binary_reader_read_def)

lemma read_Some_iff:
  "binary_reader_read n r = (Some bs, r') \<longleftrightarrow>
     current_offset r + n \<le> length (buffer r) \<and> bs = take n (drop (current_offset r) (buffer r)) \<and>
     r' = r\<lparr>current_offset := current_offset r + n\<rparr>"
  by (auto simp: binary_reader_read_def)

lemma read_field_None_iff:
  "read_field n msg st r x = (None, r', x') \<longleftrightarrow>
     current_offset r + n \<le> length (buffer r) \<and>
     r' = r\<lparr>current_offset := current_offset r + n\<rparr> \<and>
     x' = st (take n (drop (current_offset r) (buffer r))) x"
  by (auto simp: read_field_def binary_reader_read_def)

lemma read_field_Some_iff:
  "read_field n msg st r x = (Some m, r', x') \<longleftrightarrow>
     length (buffer r) < current_offset r + n \<and> m = msg \<and> r' = r \<and> x' = x"
  by (auto simp: read_field_def binary_reader_read_def)

lemma advances_refl: "advances r None r"
  by (simp add: advances_def)

lemma advances_trans: "advances r None r1 \<Longrightarrow> advances r1 e r2 \<Longrightarrow> advances r e r2"
  by (auto simp: advances_def)

lemma forward_read_field:
  "n \<le> 16 \<Longrightarrow> msg \<in> set mlod_error_messages \<Longrightarrow> forward (read_field n msg st)"
  unfolding forward_def advances_def
  by (auto simp: read_field_def binary_reader_read_def remaining_def split: if_splits)

lemma take_drop_agree:
  assumes "take (m + n) B = take (m + n) A"
  shows "take n (drop m B) = take n (drop m A)"
proof -
  have "take n (drop m B) = drop m (take (m + n) B)" by (simp add: drop_take)
  also have "\<dots> = drop m (take (m + n) A)" by (simp add: assms)
  also have "\<dots> = take n (drop m A)" by (simp add: drop_take)
  finally show ?thesis .
qed

lemma prefix_local_read_field: "prefix_local (read_field n msg st)"
  unfolding prefix_local_def
proof (intro allI impI)
  fix r x r' x' B
  assume ok: "read_field n msg st r x = (None, r', x')"
    and B: "take (current_offset r') B = take (current_offset r') (buffer r)" "current_offset r' \<le> length B"
  from ok have r': "r' = r\<lparr>current_offset := current_offset r + n\<rparr>"
    and x': "x' = st (take n (drop (current_offset r) (buffer r))) x"
    by (simp_all add: read_field_None_iff)
  from B r' have "take n (drop (current_offset r) B) = take n (drop (current_offset r) (buffer r))"
    by (intro take_drop_agree) simp
  with B r' x' show "read_field n msg st (r\<lparr>buffer := B\<rparr>) x = (None, r'\<lparr>buffer := B\<rparr>, x')"
    by (simp add: read_field_None_iff)
qed

lemma forwardD: "forward p \<Longrightarrow> p r x = (e, r', x') \<Longrightarrow> advances r e r'"
  unfolding forward_def by blast

lemma forwardI: "(\<And>r x e r' x'. p r x = (e, r', x') \<Longrightarrow> advances r e r') \<Longrightarrow> forward p"
  unfolding forward_def by blast

lemma prefix_localI:
  "(\<And>r x r' x' B. p r x = (None, r', x') \<Longrightarrow>
      take (current_offset r') B = take (current_offset r') (buffer r) \<Longrightarrow>
      current_offset r' \<le> length B \<Longrightarrow>
      p (r\<lparr>buffer := B\<rparr>) x = (None, r'\<lparr>buffer := B\<rparr>, x')) \<Longrightarrow> prefix_local p"
  unfolding prefix_local_def by blast

lemma prefix_localD:
  assumes "prefix_local p" and "p r x = (None, r', x')"
    and "take (current_offset r') B = take (current_offset r') (buffer r)"
    and "current_offset r' \<le> length B"
  shows "p (r\<lparr>buffer := B\<rparr>) x = (None, r'\<lparr>buffer := B\<rparr>, x')"
  using assms unfolding prefix_local_def by blast

lemma in_field_iff:
  "in_field g s p r x = (e, r', x') \<longleftrightarrow> (\<exists>v. p r (g x) = (e, r', v) \<and> x' = s v x)"
  by (auto simp: in_field_def split: prod.splits)

lemma forward_in_field:
  assumes "forward p" shows "forward (in_field g s p)"
proof (rule forwardI)
  fix r x e r' x'
  assume "in_field g s p r x = (e, r', x')"
  then obtain v where v: "p r (g x) = (e, r', v)" by (auto simp: in_field_iff)
  show "advances r e r'" by (rule forwardD [OF assms v])
qed

lemma prefix_local_in_field:
  assumes "prefix_local p" shows "prefix_local (in_field g s p)"
  unfolding prefix_local_def
proof (intro allI impI)
  fix r x r' x' B
  assume "in_field g s p r x = (None, r', x')"
    and B: "take (current_offset r') B = take (current_offset r') (buffer r)" "current_offset r' \<le> length B"
  then obtain v where v: "p r (g x) = (None, r', v)" and x': "x' = s v x" by (auto simp: in_field_iff)
  show "in_field g s p (r\<lparr>buffer := B\<rparr>) x = (None, r'\<lparr>buffer := B\<rparr>, x')"
    using prefix_localD [OF assms v B] x' by (simp add: in_field_def)
qed

lemma forward_assign: "forward (assign f)"
  unfolding forward_def assign_def by (auto simp: advances_refl)

lemma prefix_local_assign: "prefix_local (assign f)"
  unfolding prefix_local_def assign_def by auto

lemma take_agree_le:
  assumes "take n B = take n A" and "m \<le> n"
  shows "take m B = take m A"
proof -
  have "take m B = take m (take n B)" using assms(2) by (simp add: min_def)
  also have "\<dots> = take m (take n A)" by (simp add: assms(1))
  also have "\<dots> = take m A" using assms(2) by (simp add: min_def)
  finally show ?thesis .
qed

lemma advances_agree:
  assumes "advances r1 None r2"
    and "take (current_offset r2) B = take (current_offset r2) (buffer r)" and "current_offset r2 \<le> length B"
  shows "take (current_offset r1) B = take (current_offset r1) (buffer r)" and "current_offset r1 \<le> length B"
proof -
  from assms(1) have le: "current_offset r1 \<le> current_offset r2" by (simp add: advances_def)
  show "take (current_offset r1) B = take (current_offset r1) (buffer r)"
    by (rule take_agree_le [OF assms(2) le])
  show "current_offset r1 \<le> length B" using le assms(3) by simp
qed

subsection \<open>Loops and sequences\<close>

lemma for_each_advances:
  assumes "forward p"
  shows "for_each p r es = (e, r', es') \<Longrightarrow> advances r e r'"
proof (induction es arbitrary: r e r' es')
  case Nil
  then show ?case by (simp add: advances_refl)
next
  case (Cons a es)
  obtain e1 r1 a1 where p: "p r a = (e1, r1, a1)" by (cases "p r a")
  show ?case
  proof (cases e1)
    case (Some m)
    with p Cons.prems have "e = e1" "r' = r1" by simp_all
    with forwardD [OF assms p] show ?thesis by simp
  next
    case None
    obtain e2 r2 es2 where q: "for_each p r1 es = (e2, r2, es2)" by (cases "for_each p r1 es")
    with p None Cons.prems have "e = e2" "r' = r2" by simp_all
    with forwardD [OF assms p] None Cons.IH [OF q] show ?thesis
      by (auto intro: advances_trans)
  qed
qed

lemma forward_for_each: "forward p \<Longrightarrow> forward (for_each p)"
  by (rule forwardI) (rule for_each_advances)

lemma for_each_local:
  assumes "forward p" "prefix_local p"
  shows "for_each p r es = (None, r', es') \<Longrightarrow>
         take (current_offset r') B = take (current_offset r') (buffer r) \<Longrightarrow>
         current_offset r' \<le> length B \<Longrightarrow>
         for_each p (r\<lparr>buffer := B\<rparr>) es = (None, r'\<lparr>buffer := B\<rparr>, es')"
proof (induction es arbitrary: r r' es')
  case Nil
  then show ?case by simp
next
  case (Cons a es)
  obtain e1 r1 a1 where p: "p r a = (e1, r1, a1)" by (cases "p r a")
  obtain e2 r2 es2 where q: "for_each p r1 es = (e2, r2, es2)" by (cases "for_each p r1 es")
  from p q Cons.prems(1) have e1: "e1 = None" and e2: "e2 = None" and r2: "r2 = r'" and es': "es' = a1 # es2"
    by (auto split: option.splits)
  have b1: "buffer r1 = buffer r" using forwardD [OF assms(1) p] by (simp add: advances_def)
  have adv: "advances r1 None r'" using for_each_advances [OF assms(1) q] e2 r2 by simp
  have p': "p (r\<lparr>buffer := B\<rparr>) a = (None, r1\<lparr>buffer := B\<rparr>, a1)"
    using p e1 advances_agree [OF adv Cons.prems(2,3)] by (intro prefix_localD [OF assms(2)]) simp_all
  have q': "for_each p (r1\<lparr>buffer := B\<rparr>) es = (None, r'\<lparr>buffer := B\<rparr>, es2)"
    using q e2 r2 Cons.prems(2,3) b1 by (intro Cons.IH) simp_all
  show ?case using p' q' es' by simp
qed

lemma prefix_local_for_each: "forward p \<Longrightarrow> prefix_local p \<Longrightarrow> prefix_local (for_each p)"
  by (rule prefix_localI) (rule for_each_local)

lemma chain_Cons_None_iff:
  "chain (p # ps) r x = (None, r2, x2) \<longleftrightarrow>
     (\<exists>r1 x1. p r x = (None, r1, x1) \<and> chain ps r1 x1 = (None, r2, x2))"
  by (auto split: prod.splits option.splits)

lemma chain_advances:
  "\<forall>p \<in> set ps. forward p \<Longrightarrow> chain ps r x = (e, r', x') \<Longrightarrow> advances r e r'"
proof (induction ps arbitrary: r x)
  case Nil
  then show ?case by (simp add: advances_refl)
next
  case (Cons p ps)
  obtain e1 r1 x1 where p: "p r x = (e1, r1, x1)" by (cases "p r x")
  have fp: "forward p" using Cons.prems(1) by simp
  show ?case
  proof (cases e1)
    case (Some m)
    with p Cons.prems(2) have "e = e1" "r' = r1" by simp_all
    with forwardD [OF fp p] show ?thesis by simp
  next
    case None
    with p Cons.prems(2) have q: "chain ps r1 x1 = (e, r', x')" by simp
    have "advances r1 e r'" using Cons.IH [OF _ q] Cons.prems(1) by simp
    with forwardD [OF fp p] None show ?thesis by (auto intro: advances_trans)
  qed
qed

lemma forward_chain: "\<forall>p \<in> set ps. forward p \<Longrightarrow> forward (chain ps)"
  by (rule forwardI) (rule chain_advances)

lemma chain_local:
  "\<forall>p \<in> set ps. forward p \<and> prefix_local p \<Longrightarrow> chain ps r x = (None, r', x') \<Longrightarrow>
   take (current_offset r') B = take (current_offset r') (buffer r) \<Longrightarrow>
   current_offset r' \<le> length B \<Longrightarrow>
   chain ps (r\<lparr>buffer := B\<rparr>) x = (None, r'\<lparr>buffer := B\<rparr>, x')"
proof (induction ps arbitrary: r x)
  case Nil
  then show ?case by simp
next
  case (Cons p ps)
  from Cons.prems(2) [unfolded chain_Cons_None_iff]
  obtain r1 x1 where p: "p r x = (None, r1, x1)" and q: "chain ps r1 x1 = (None, r', x')"
    by blast
  have fp: "forward p" and lp: "prefix_local p" and rest: "\<forall>p \<in> set ps. forward p \<and> prefix_local p"
    using Cons.prems(1) by simp_all
  have b1: "buffer r1 = buffer r" using forwardD [OF fp p] by (simp add: advances_def)
  have adv: "advances r1 None r'" using chain_advances [OF _ q] rest by blast
  have p': "p (r\<lparr>buffer := B\<rparr>) x = (None, r1\<lparr>buffer := B\<rparr>, x1)"
    using advances_agree [OF adv Cons.prems(3,4)] by (intro prefix_localD [OF lp p]) simp_all
  have q': "chain ps (r1\<lparr>buffer := B\<rparr>) x1 = (None, r'\<lparr>buffer := B\<rparr>, x')"
    using Cons.prems(3,4) b1 by (intro Cons.IH [OF rest q]) simp_all
  show ?case using p' q' by simp
qed

lemma prefix_local_chain: "\<forall>p \<in> set ps. forward p \<and> prefix_local p \<Longrightarrow> prefix_local (chain ps)"
  by (rule prefix_localI) (rule chain_local)

subsection \<open>The string loop in closed form\<close>

declare arma_string_loop.simps [simp del]

lemma rest_Cons:
  "current_offset r < length (buffer r) \<Longrightarrow>
   rest r = buffer r ! current_offset r # rest (r\<lparr>current_offset := current_offset r + 1\<rparr>)"
  by (simp add: rest_def Cons_nth_drop_Suc)

lemma rest_Nil: "length (buffer r) \<le> current_offset r \<Longrightarrow> rest r = []"
  by (simp add: rest_def)

lemma length_rest: "length (rest r) = length (buffer r) - current_offset r"
  by (simp add: rest_def)

lemma read_one:
  "current_offset r < length (buffer r) \<Longrightarrow>
   binary_reader_read 1 r = (Some [buffer r ! current_offset r], r\<lparr>current_offset := current_offset r + 1\<rparr>)"
  by (simp add: binary_reader_read_def take_Suc_conv_app_nth [of 0, simplified] hd_drop_conv_nth take_Suc)

lemma arma_string_loop_closed:
  "arma_string_loop r s =
     (let t = takeWhile (\<lambda>b. b \<noteq> 0) (rest r)
      in if length t < length (rest r)
         then (None, r\<lparr>current_offset := current_offset r + length t + 1\<rparr>, s @ t)
         else (Some ''failed to read arma_string[n]'', r\<lparr>current_offset := current_offset r + length t\<rparr>, s @ t))"
proof (induction r s rule: arma_string_loop.induct)
  case (1 r s)
  show ?case
  proof (cases "current_offset r < length (buffer r)")
    case False
    then have "binary_reader_read 1 r = (None, r)" by (simp add: binary_reader_read_def)
    moreover from False have "rest r = []" by (simp add: rest_Nil)
    ultimately show ?thesis by (subst arma_string_loop.simps) simp
  next
    case True
    let ?ch = "buffer r ! current_offset r"
    let ?r1 = "r\<lparr>current_offset := current_offset r + 1\<rparr>"
    have rd: "binary_reader_read 1 r = (Some [?ch], ?r1)" by (rule read_one [OF True])
    have rs: "rest r = ?ch # rest ?r1" by (rule rest_Cons [OF True])
    show ?thesis
    proof (cases "?ch = 0")
      case True
      with rd rs show ?thesis by (subst arma_string_loop.simps) (simp add: u8_of_def)
    next
      case False
      have ih: "arma_string_loop ?r1 (s @ [?ch]) =
        (let t = takeWhile (\<lambda>b. b \<noteq> 0) (rest ?r1)
         in if length t < length (rest ?r1)
            then (None, ?r1\<lparr>current_offset := current_offset ?r1 + length t + 1\<rparr>, (s @ [?ch]) @ t)
            else (Some ''failed to read arma_string[n]'', ?r1\<lparr>current_offset := current_offset ?r1 + length t\<rparr>, (s @ [?ch]) @ t))"
        using "1.IH" [OF rd [symmetric] refl] False by (simp add: u8_of_def Let_def)
      have "arma_string_loop r s = arma_string_loop ?r1 (s @ [?ch])"
        using rd False by (subst arma_string_loop.simps) (simp add: u8_of_def)
      with ih rs False show ?thesis by (simp add: Let_def)
    qed
  qed
qed

lemma arma_string_loop_success:
  assumes "arma_string_loop r s = (None, r', s')"
  shows "\<exists>t. s' = s @ t \<and> 0 \<notin> set t \<and> rest r = t @ 0 # rest r' \<and>
             r' = r\<lparr>current_offset := current_offset r + length t + 1\<rparr>"
proof -
  define t where "t = takeWhile (\<lambda>b. b \<noteq> 0) (rest r)"
  define d where "d = dropWhile (\<lambda>b. b \<noteq> 0) (rest r)"
  from assms have lt: "length t < length (rest r)"
    and r': "r' = r\<lparr>current_offset := current_offset r + length t + 1\<rparr>" and s': "s' = s @ t"
    unfolding t_def by (simp_all add: arma_string_loop_closed Let_def split: if_splits)
  have nz: "0 \<notin> set t" unfolding t_def by (auto dest: set_takeWhileD)
  have split: "rest r = t @ d" unfolding t_def d_def by simp
  with lt have ne: "d \<noteq> []" by auto
  then have "hd d = 0" unfolding d_def using hd_dropWhile [of "\<lambda>b. b \<noteq> 0" "rest r"] by simp
  moreover have "tl d = rest r'"
  proof -
    have "d = drop (length t) (rest r)" unfolding d_def t_def by (simp add: dropWhile_eq_drop)
    then have "tl d = drop (Suc (length t)) (rest r)" by (simp add: tl_drop drop_Suc)
    also have "\<dots> = rest r'" by (simp add: r' rest_def add.commute)
    finally show ?thesis .
  qed
  ultimately have "d = 0 # rest r'" using ne by (cases d) simp_all
  with split s' nz r' show ?thesis by blast
qed

lemma arma_string_loop_complete:
  assumes "rest r = t @ 0 # ys" and "0 \<notin> set t"
  shows "arma_string_loop r s = (None, r\<lparr>current_offset := current_offset r + length t + 1\<rparr>, s @ t)"
proof -
  have "\<And>x. x \<in> set t \<Longrightarrow> x \<noteq> 0" using assms(2) by auto
  then have tw: "takeWhile (\<lambda>b. b \<noteq> 0) (t @ 0 # ys) = t"
    by (simp add: takeWhile_append2)
  show ?thesis unfolding arma_string_loop_closed Let_def assms(1) tw by simp
qed

lemma arma_string_loop_fails:
  assumes "0 \<notin> set (rest r)"
  shows "\<exists>r'. arma_string_loop r s = (Some ''failed to read arma_string[n]'', r', s @ rest r)"
proof -
  have "\<And>x. x \<in> set (rest r) \<Longrightarrow> x \<noteq> 0" using assms by auto
  then have all: "takeWhile (\<lambda>b. b \<noteq> 0) (rest r) = rest r"
    by (simp add: takeWhile_eq_all_conv)
  show ?thesis unfolding arma_string_loop_closed Let_def all by simp
qed

subsection \<open>The parse functions move the reader forward\<close>

lemma forward_arma_string_parse: "forward arma_string_parse"
proof (rule forwardI)
  fix r x e r' x'
  assume a: "arma_string_parse r x = (e, r', x')"
  define t where "t = takeWhile (\<lambda>b. b \<noteq> 0) (rest r)"
  have le: "length t \<le> length (rest r)" unfolding t_def by (rule length_takeWhile_le)
  show "advances r e r'"
  proof (cases "length t < length (rest r)")
    case True
    with a have "e = None" "r' = r\<lparr>current_offset := current_offset r + length t + 1\<rparr>"
      unfolding t_def by (auto simp: arma_string_parse_def arma_string_loop_closed Let_def)
    with True show ?thesis by (auto simp: advances_def length_rest)
  next
    case False
    with a have "e = Some ''failed to read arma_string[n]''"
      "r' = r\<lparr>current_offset := current_offset r + length t\<rparr>"
      unfolding t_def by (auto simp: arma_string_parse_def arma_string_loop_closed Let_def)
    moreover from False le have "length t = length (buffer r) - current_offset r"
      by (simp add: length_rest)
    ultimately show ?thesis by (auto simp: advances_def remaining_def mlod_error_messages_def)
  qed
qed

lemma prefix_local_arma_string_parse: "prefix_local arma_string_parse"
proof (rule prefix_localI)
  fix r x r' x' B
  assume a: "arma_string_parse r x = (None, r', x')"
    and B: "take (current_offset r') B = take (current_offset r') (buffer r)" "current_offset r' \<le> length B"
  from a obtain t where x': "x' = t" and nz: "0 \<notin> set t" and rs: "rest r = t @ 0 # rest r'"
    and r': "r' = r\<lparr>current_offset := current_offset r + length t + 1\<rparr>"
    using arma_string_loop_success [of r "[]" r' x'] by (auto simp: arma_string_parse_def)
  let ?n = "length t + 1"
  have "take ?n (drop (current_offset r) B) = take ?n (drop (current_offset r) (buffer r))"
    using B(1) r' by (intro take_drop_agree) (simp add: add.assoc)
  also have "\<dots> = t @ [0]" using rs by (simp add: rest_def)
  finally have tk: "take ?n (drop (current_offset r) B) = t @ [0]" .
  have "rest (r\<lparr>buffer := B\<rparr>) = take ?n (drop (current_offset r) B) @ drop ?n (drop (current_offset r) B)"
    by (simp add: rest_def del: drop_drop)
  then have "rest (r\<lparr>buffer := B\<rparr>) = t @ 0 # drop ?n (drop (current_offset r) B)"
    unfolding tk by simp
  from arma_string_loop_complete [OF this nz, of "[]"] show
    "arma_string_parse (r\<lparr>buffer := B\<rparr>) x = (None, r'\<lparr>buffer := B\<rparr>, x')"
    by (simp add: arma_string_parse_def r' x')
qed

named_theorems parser_intros

lemmas [parser_intros] =
  forward_read_field prefix_local_read_field forward_in_field prefix_local_in_field
  forward_assign prefix_local_assign forward_for_each prefix_local_for_each
  forward_arma_string_parse prefix_local_arma_string_parse

lemma forward_vector3_parse [parser_intros]: "forward vector3_parse"
  unfolding vector3_parse_def
  by (rule forward_chain) (simp add: parser_intros mlod_error_messages_def)

lemma prefix_local_vector3_parse [parser_intros]: "prefix_local vector3_parse"
  unfolding vector3_parse_def
  by (rule prefix_local_chain) (simp add: parser_intros mlod_error_messages_def)

lemma forward_mlod_face_parse [parser_intros]: "forward mlod_face_parse"
  unfolding mlod_face_parse_def
  by (rule forward_chain) (simp add: parser_intros mlod_error_messages_def)

lemma prefix_local_mlod_face_parse [parser_intros]: "prefix_local mlod_face_parse"
  unfolding mlod_face_parse_def
  by (rule prefix_local_chain) (simp add: parser_intros mlod_error_messages_def)

lemma forward_mlod_point_parse [parser_intros]: "forward mlod_point_parse"
  unfolding mlod_point_parse_def
  by (rule forward_chain) (simp add: parser_intros mlod_error_messages_def)

lemma prefix_local_mlod_point_parse [parser_intros]: "prefix_local mlod_point_parse"
  unfolding mlod_point_parse_def
  by (rule prefix_local_chain) (simp add: parser_intros mlod_error_messages_def)

lemma forward_mlod_tag_parse [parser_intros]: "forward mlod_tag_parse"
  unfolding mlod_tag_parse_def
  by (rule forward_chain) (simp add: parser_intros mlod_error_messages_def)

lemma prefix_local_mlod_tag_parse [parser_intros]: "prefix_local mlod_tag_parse"
  unfolding mlod_tag_parse_def
  by (rule prefix_local_chain) (simp add: parser_intros mlod_error_messages_def)

text \<open>A tag that parses takes at least its \<^verbatim>\<open>active\<close> byte, so the tag loop ends.\<close>

lemma mlod_tag_parse_progress:
  assumes "mlod_tag_parse r t = (None, r', t')"
  shows "length (buffer r') - current_offset r' < length (buffer r) - current_offset r"
proof -
  let ?tl = "[in_field tag_name (\<lambda>v t. t\<lparr>tag_name := v\<rparr>) arma_string_parse,
      read_field 4 ''failed to read mlod_tag.data_length'' (\<lambda>bs t. t\<lparr>data_length := u32_of bs\<rparr>),
      assign (\<lambda>t. t\<lparr>tag_data := resize (unat (data_length t)) 0 (tag_data t)\<rparr>),
      in_field tag_data (\<lambda>v t. t\<lparr>tag_data := v\<rparr>)
        (for_each (read_field 1 ''failed to read mlod_tag.data[m]'' (\<lambda>bs b. u8_of bs)))]"
  from assms obtain r1 t1
    where first: "read_field 1 ''failed to read mlod_tag.active'' (\<lambda>bs t. t\<lparr>active := u8_of bs\<rparr>) r t = (None, r1, t1)"
      and others: "chain ?tl r1 t1 = (None, r', t')"
    unfolding mlod_tag_parse_def by (subst (asm) chain_Cons_None_iff) blast
  from first have r1: "current_offset r + 1 \<le> length (buffer r)" "r1 = r\<lparr>current_offset := current_offset r + 1\<rparr>"
    by (simp_all add: read_field_None_iff)
  have "\<forall>p \<in> set ?tl. forward p" by (simp add: parser_intros mlod_error_messages_def)
  from chain_advances [OF this others] have "advances r1 None r'" .
  with r1 have "buffer r' = buffer r" "current_offset r < current_offset r'" "current_offset r' \<le> length (buffer r)"
    by (auto simp: advances_def)
  then show ?thesis by simp
qed

section \<open>The tag loop, the LOD and the document\<close>

text \<open>The \<^verbatim>\<open>do { ... } while (true)\<close> over the tags in \<^verbatim>\<open>mlod_lod::parse\<close>.\<close>

function tags_loop :: "mlod_lod parser" where
  "tags_loop r out =
     (case mlod_tag_parse r mlod_tag_zero of
        (Some err, r', tag) \<Rightarrow> (Some err, r', out)
      | (None, r', tag) \<Rightarrow>
          (if tag_name tag = str ''#EndOfFile#'' then (None, r', store_tag tag out)
           else tags_loop r' (store_tag tag out)))"
  by pat_completeness auto
termination
  by (relation "measure (\<lambda>(r, out). length (buffer r) - current_offset r)")
     (auto dest: mlod_tag_parse_progress [OF sym])

declare tags_loop.simps [simp del]

definition mlod_lod_parse :: "mlod_lod parser" where
  "mlod_lod_parse = chain
     [read_field 4 ''failed to read mlod_lod.signature'' (\<lambda>bs l. l\<lparr>lod_signature := signature_of bs\<rparr>),
      read_field 4 ''failed to read mlod_lod.minor_version'' (\<lambda>bs l. l\<lparr>minor_version := u32_of bs\<rparr>),
      read_field 4 ''failed to read mlod_lod.major_version'' (\<lambda>bs l. l\<lparr>major_version := u32_of bs\<rparr>),
      read_field 4 ''failed to read mlod_lod.num_points'' (\<lambda>bs l. l\<lparr>num_points := u32_of bs\<rparr>),
      read_field 4 ''failed to read mlod_lod.num_face_normals'' (\<lambda>bs l. l\<lparr>num_face_normals := u32_of bs\<rparr>),
      read_field 4 ''failed to read mlod_lod.num_faces'' (\<lambda>bs l. l\<lparr>num_faces := u32_of bs\<rparr>),
      read_field 4 ''failed to read mlod_lod.flags'' (\<lambda>bs l. l\<lparr>lod_flags := u32_of bs\<rparr>),
      assign (\<lambda>l. l\<lparr>points := resize (unat (num_points l)) mlod_point_zero (points l)\<rparr>),
      in_field points (\<lambda>v l. l\<lparr>points := v\<rparr>) (for_each mlod_point_parse),
      assign (\<lambda>l. l\<lparr>normals := resize (unat (num_face_normals l)) vector3_zero (normals l)\<rparr>),
      in_field normals (\<lambda>v l. l\<lparr>normals := v\<rparr>) (for_each vector3_parse),
      assign (\<lambda>l. l\<lparr>faces := resize (unat (num_faces l)) mlod_face_zero (faces l)\<rparr>),
      in_field faces (\<lambda>v l. l\<lparr>faces := v\<rparr>) (for_each mlod_face_parse),
      read_field 4 ''failed to read mlod_lod.tag_sig'' (\<lambda>bs l. l\<lparr>tag_sig := signature_of bs\<rparr>),
      tags_loop,
      read_field 4 ''failed to read mlod_lod.resolution'' (\<lambda>bs l. l\<lparr>resolution := u32_of bs\<rparr>)]"

definition mlod_lod_write :: "mlod_lod \<Rightarrow> binary_writer \<Rightarrow> binary_writer" where
  "mlod_lod_write l w =
     binary_writer_write (u32_bytes (resolution l))
       (write_each mlod_tag_write (tags l)
         (binary_writer_write (signature_bytes (tag_sig l))
           (write_each mlod_face_write (faces l)
             (write_each vector3_write (normals l)
               (write_each mlod_point_write (points l)
                 (binary_writer_write (u32_bytes (lod_flags l))
                   (binary_writer_write (u32_bytes (num_faces l))
                     (binary_writer_write (u32_bytes (num_face_normals l))
                       (binary_writer_write (u32_bytes (num_points l))
                         (binary_writer_write (u32_bytes (major_version l))
                           (binary_writer_write (u32_bytes (minor_version l))
                             (binary_writer_write (signature_bytes (lod_signature l)) w))))))))))))"

subsection \<open>p3d\_header and mlod\_p3d\<close>

record p3d_header =
  hdr_signature :: mlod_signature
  version :: "32 word"
  lod_count :: "32 word"

definition p3d_header_default :: p3d_header where
  "p3d_header_default = \<lparr>hdr_signature = (0, 0, 0, 0), version = 0, lod_count = 0\<rparr>"

definition p3d_header_parse :: "p3d_header parser" where
  "p3d_header_parse = chain
     [read_field 4 ''failed to read p3d_header.signature'' (\<lambda>bs h. h\<lparr>hdr_signature := signature_of bs\<rparr>),
      read_field 4 ''failed to read p3d_header.version'' (\<lambda>bs h. h\<lparr>version := u32_of bs\<rparr>),
      read_field 4 ''failed to read p3d_header.lod_count'' (\<lambda>bs h. h\<lparr>lod_count := u32_of bs\<rparr>)]"

definition p3d_header_write :: "p3d_header \<Rightarrow> binary_writer \<Rightarrow> binary_writer" where
  "p3d_header_write h w =
     binary_writer_write (u32_bytes (lod_count h))
       (binary_writer_write (u32_bytes (version h))
         (binary_writer_write (signature_bytes (hdr_signature h)) w))"

record mlod_p3d =
  header :: p3d_header
  lods :: "mlod_lod list"

definition mlod_p3d_default :: mlod_p3d where
  "mlod_p3d_default = \<lparr>header = p3d_header_default, lods = []\<rparr>"

definition mlod_p3d_parse :: "mlod_p3d parser" where
  "mlod_p3d_parse = chain
     [in_field header (\<lambda>v d. d\<lparr>header := v\<rparr>) p3d_header_parse,
      assign (\<lambda>d. d\<lparr>lods := resize (unat (lod_count (header d))) mlod_lod_default (lods d)\<rparr>),
      in_field lods (\<lambda>v d. d\<lparr>lods := v\<rparr>) (for_each mlod_lod_parse)]"

definition mlod_p3d_write :: "mlod_p3d \<Rightarrow> binary_writer \<Rightarrow> binary_writer" where
  "mlod_p3d_write d w = write_each mlod_lod_write (lods d) (p3d_header_write (header d) w)"

subsection \<open>The two halves of main\<close>

text \<open>
  \<^verbatim>\<open>main\<close> puts a reader over the whole file, parses into a fresh \<^verbatim>\<open>mlod_p3d out\<close> and
  stops with the error if there is one; otherwise it writes \<^verbatim>\<open>out\<close> to a fresh writer
  and stores \<^verbatim>\<open>writer.data\<close>.
\<close>

definition decode :: "byte list \<Rightarrow> mlod_error + mlod_p3d" where
  "decode bytes =
     (case mlod_p3d_parse (binary_reader_init bytes) mlod_p3d_default of
        (Some err, r, out) \<Rightarrow> Inl err
      | (None, r, out) \<Rightarrow> Inr out)"

definition encode :: "mlod_p3d \<Rightarrow> byte list" where
  "encode out = w_data (mlod_p3d_write out binary_writer_init)"

section \<open>What a successful parse has read, and what write emits\<close>

subsection \<open>Taking a parse apart\<close>

lemma for_each_length: "for_each p r es = (e, r', es') \<Longrightarrow> length es' = length es"
proof (induction es arbitrary: r e r' es')
  case Nil
  then show ?case by simp
next
  case (Cons a es)
  obtain e1 r1 a1 where p: "p r a = (e1, r1, a1)" by (cases "p r a")
  obtain e2 r2 es2 where q: "for_each p r1 es = (e2, r2, es2)" by (cases "for_each p r1 es")
  from Cons.IH [OF q] p q Cons.prems show ?case by (auto split: option.splits)
qed

lemma length_resize [simp]: "length (resize n d xs) = n"
  by (simp add: resize_def)

lemma chain_ConsE:
  assumes "chain (p # ps) r x = (None, r2, x2)"
  obtains r1 x1 where "p r x = (None, r1, x1)" and "chain ps r1 x1 = (None, r2, x2)"
  using assms by (subst (asm) chain_Cons_None_iff) blast

lemma chain_NilE:
  assumes "chain [] r x = (None, r2, x2)"
  obtains "r2 = r" and "x2 = x"
  using assms by simp

subsection \<open>The byte layout and the write functions\<close>

text \<open>The layout of each struct in the file, field after field.\<close>

definition vector3_bytes :: "vector3 \<Rightarrow> byte list" where
  "vector3_bytes v = u32_bytes (vec_x v) @ u32_bytes (vec_y v) @ u32_bytes (vec_z v)"

definition arma_string_bytes :: "arma_string \<Rightarrow> byte list" where
  "arma_string_bytes s = s @ [0]"

definition mlod_face_bytes :: "mlod_face \<Rightarrow> byte list" where
  "mlod_face_bytes f =
     u32_bytes (face_type f) @ concat (map vert_descriptor_bytes (vertices f)) @
     u32_bytes (face_flags f) @ arma_string_bytes (texture_name f) @ arma_string_bytes (material_name f)"

definition mlod_point_bytes :: "mlod_point \<Rightarrow> byte list" where
  "mlod_point_bytes p = vector3_bytes (pos p) @ u32_bytes (point_flags p)"

definition mlod_tag_bytes :: "mlod_tag \<Rightarrow> byte list" where
  "mlod_tag_bytes t =
     [active t] @ arma_string_bytes (tag_name t) @ u32_bytes (data_length t) @ tag_data t"

definition mlod_lod_bytes :: "mlod_lod \<Rightarrow> byte list" where
  "mlod_lod_bytes l =
     signature_bytes (lod_signature l) @ u32_bytes (minor_version l) @ u32_bytes (major_version l) @
     u32_bytes (num_points l) @ u32_bytes (num_face_normals l) @ u32_bytes (num_faces l) @
     u32_bytes (lod_flags l) @
     concat (map mlod_point_bytes (points l)) @ concat (map vector3_bytes (normals l)) @
     concat (map mlod_face_bytes (faces l)) @
     signature_bytes (tag_sig l) @ concat (map mlod_tag_bytes (tags l)) @ u32_bytes (resolution l)"

definition p3d_header_bytes :: "p3d_header \<Rightarrow> byte list" where
  "p3d_header_bytes h =
     signature_bytes (hdr_signature h) @ u32_bytes (version h) @ u32_bytes (lod_count h)"

definition mlod_p3d_bytes :: "mlod_p3d \<Rightarrow> byte list" where
  "mlod_p3d_bytes d = p3d_header_bytes (header d) @ concat (map mlod_lod_bytes (lods d))"

text \<open>A writer as \<^verbatim>\<open>write\<close> keeps it: \<^verbatim>\<open>write_offset\<close> is the size of \<^verbatim>\<open>data\<close>.\<close>

definition tight :: "binary_writer \<Rightarrow> bool" where
  "tight w \<longleftrightarrow> write_offset w = length (w_data w)"

definition emit :: "byte list \<Rightarrow> binary_writer \<Rightarrow> binary_writer" where
  "emit bs w = \<lparr>w_data = w_data w @ bs, write_offset = write_offset w + length bs\<rparr>"

lemma tight_init: "tight binary_writer_init"
  by (simp add: tight_def binary_writer_init_def)

lemma tight_emit: "tight w \<Longrightarrow> tight (emit bs w)"
  by (simp add: tight_def emit_def)

lemma emit_emit: "emit b (emit a w) = emit (a @ b) w"
  by (simp add: emit_def)

lemma emit_Nil: "emit [] w = w"
  by (simp add: emit_def)

lemma binary_writer_write_tight: "tight w \<Longrightarrow> binary_writer_write bs w = emit bs w"
  by (simp add: tight_def binary_writer_write_def emit_def)

lemma write_each_emit:
  assumes "\<And>e w. tight w \<Longrightarrow> f e w = emit (enc e) w"
  shows "tight w \<Longrightarrow> write_each f es w = emit (concat (map enc es)) w"
proof (induction es arbitrary: w)
  case Nil
  then show ?case by (simp add: emit_Nil)
next
  case (Cons e es)
  have "write_each f (e # es) w = write_each f es (emit (enc e) w)"
    using Cons.prems by (simp add: assms)
  also have "\<dots> = emit (concat (map enc es)) (emit (enc e) w)"
    using Cons.prems by (intro Cons.IH tight_emit)
  finally show ?case by (simp add: emit_emit)
qed

lemma vector3_write_emit: "tight w \<Longrightarrow> vector3_write v w = emit (vector3_bytes v) w"
  by (simp add: vector3_write_def vector3_bytes_def binary_writer_write_tight tight_emit emit_emit)

lemma concat_singletons: "concat (map (\<lambda>b. [b]) s) = s"
  by (induction s) simp_all

lemma arma_string_write_emit: "tight w \<Longrightarrow> arma_string_write s w = emit (arma_string_bytes s) w"
proof -
  assume t: "tight w"
  have "write_each (\<lambda>ch. binary_writer_write [ch]) s w = emit (concat (map (\<lambda>b. [b]) s)) w"
    by (rule write_each_emit [OF _ t]) (simp add: binary_writer_write_tight)
  then show ?thesis using t
    by (simp add: arma_string_write_def arma_string_bytes_def concat_singletons
        binary_writer_write_tight tight_emit emit_emit)
qed

lemma mlod_face_write_emit: "tight w \<Longrightarrow> mlod_face_write f w = emit (mlod_face_bytes f) w"
proof -
  assume t: "tight w"
  let ?w1 = "emit (u32_bytes (face_type f)) w"
  have t1: "tight ?w1" by (rule tight_emit [OF t])
  have "write_each (\<lambda>d. binary_writer_write (vert_descriptor_bytes d)) (vertices f) ?w1 =
        emit (concat (map vert_descriptor_bytes (vertices f))) ?w1"
    by (rule write_each_emit [OF _ t1]) (simp add: binary_writer_write_tight)
  then show ?thesis using t
    by (simp add: mlod_face_write_def mlod_face_bytes_def binary_writer_write_tight
        arma_string_write_emit tight_emit emit_emit)
qed

lemma mlod_point_write_emit: "tight w \<Longrightarrow> mlod_point_write p w = emit (mlod_point_bytes p) w"
  by (simp add: mlod_point_write_def mlod_point_bytes_def vector3_write_emit
      binary_writer_write_tight tight_emit emit_emit)

lemma mlod_tag_write_emit: "tight w \<Longrightarrow> mlod_tag_write t w = emit (mlod_tag_bytes t) w"
proof -
  assume t: "tight w"
  let ?w1 = "emit (u32_bytes (data_length t)) (emit (arma_string_bytes (tag_name t)) (emit [active t] w))"
  have t1: "tight ?w1" by (intro tight_emit t)
  have "write_each (\<lambda>b. binary_writer_write [b]) (tag_data t) ?w1 =
        emit (concat (map (\<lambda>b. [b]) (tag_data t))) ?w1"
    by (rule write_each_emit [OF _ t1]) (simp add: binary_writer_write_tight)
  then show ?thesis using t
    by (simp add: mlod_tag_write_def mlod_tag_bytes_def concat_singletons
        binary_writer_write_tight arma_string_write_emit tight_emit emit_emit)
qed

lemma mlod_lod_write_emit: "tight w \<Longrightarrow> mlod_lod_write l w = emit (mlod_lod_bytes l) w"
  by (simp add: mlod_lod_write_def mlod_lod_bytes_def binary_writer_write_tight tight_emit emit_emit
      write_each_emit [where enc = mlod_point_bytes, OF mlod_point_write_emit]
      write_each_emit [where enc = vector3_bytes, OF vector3_write_emit]
      write_each_emit [where enc = mlod_face_bytes, OF mlod_face_write_emit]
      write_each_emit [where enc = mlod_tag_bytes, OF mlod_tag_write_emit])

lemma p3d_header_write_emit: "tight w \<Longrightarrow> p3d_header_write h w = emit (p3d_header_bytes h) w"
  by (simp add: p3d_header_write_def p3d_header_bytes_def binary_writer_write_tight tight_emit emit_emit)

lemma mlod_p3d_write_emit: "tight w \<Longrightarrow> mlod_p3d_write d w = emit (mlod_p3d_bytes d) w"
  by (simp add: mlod_p3d_write_def mlod_p3d_bytes_def p3d_header_write_emit tight_emit emit_emit
      write_each_emit [where enc = mlod_lod_bytes, OF mlod_lod_write_emit])

lemma encode_layout: "encode d = mlod_p3d_bytes d"
proof -
  have "mlod_p3d_write d binary_writer_init = emit (mlod_p3d_bytes d) binary_writer_init"
    by (rule mlod_p3d_write_emit [OF tight_init])
  then show ?thesis by (simp add: encode_def emit_def binary_writer_init_def)
qed

subsection \<open>Object representations read back\<close>

lemma length_four: "length bs = 4 \<Longrightarrow> \<exists>a b c d. bs = [a, b, c, d]"
  by (auto simp: length_Suc_conv eval_nat_numeral)

lemma u32_bytes_u32_of: "length bs = 4 \<Longrightarrow> u32_bytes (u32_of bs) = bs"
proof -
  assume "length bs = 4"
  then obtain a b c d where bs: "bs = [a, b, c, d]" using length_four by blast
  have "ucast (ucast a OR push_bit 8 (ucast b) OR push_bit 16 (ucast c) OR push_bit 24 (ucast d) :: 32 word) = a"
    "ucast (drop_bit 8 (ucast a OR push_bit 8 (ucast b) OR push_bit 16 (ucast c) OR push_bit 24 (ucast d) :: 32 word)) = b"
    "ucast (drop_bit 16 (ucast a OR push_bit 8 (ucast b) OR push_bit 16 (ucast c) OR push_bit 24 (ucast d) :: 32 word)) = c"
    "ucast (drop_bit 24 (ucast a OR push_bit 8 (ucast b) OR push_bit 16 (ucast c) OR push_bit 24 (ucast d) :: 32 word)) = d"
    by (rule bit_word_eqI; auto simp: bit_simps dest: bit_imp_le_length)+
  then show ?thesis by (simp add: bs u32_bytes_def u32_of_def)
qed

lemma length_u32_bytes [simp]: "length (u32_bytes w) = 4"
  by (simp add: u32_bytes_def)

lemma signature_bytes_signature_of: "length bs = 4 \<Longrightarrow> signature_bytes (signature_of bs) = bs"
  using length_four [of bs] by (auto simp: signature_bytes_def signature_of_def)

lemma u8_of_single: "length bs = 1 \<Longrightarrow> [u8_of bs] = bs"
  by (cases bs) (auto simp: u8_of_def)

lemma vert_descriptor_bytes_of:
  assumes "length bs = 16"
  shows "vert_descriptor_bytes (vert_descriptor_of bs) = bs"
proof -
  have "vert_descriptor_bytes (vert_descriptor_of bs) =
        take 4 bs @ take 4 (drop 4 bs) @ take 4 (drop 8 bs) @ take 4 (drop 12 bs)"
    using assms by (simp add: vert_descriptor_bytes_def vert_descriptor_of_def u32_bytes_u32_of)
  also have "\<dots> = take 4 bs @ take 4 (drop 4 bs) @ take 8 (drop 8 bs)"
    using take_add [of 4 4 "drop 8 bs"] by simp
  also have "\<dots> = take 4 bs @ take 12 (drop 4 bs)"
    using take_add [of 4 8 "drop 4 bs"] by simp
  also have "\<dots> = take 16 bs"
    using take_add [of 4 12 bs] by simp
  also have "\<dots> = bs" using assms by simp
  finally show ?thesis .
qed

subsection \<open>What a successful parse has consumed\<close>

lemma read_field_consumes:
  assumes "read_field n msg st r x = (None, r', x')"
  shows "\<exists>bs. length bs = n \<and> rest r = bs @ rest r' \<and> x' = st bs x"
proof -
  from assms have le: "current_offset r + n \<le> length (buffer r)"
    and r': "r' = r\<lparr>current_offset := current_offset r + n\<rparr>"
    and x': "x' = st (take n (drop (current_offset r) (buffer r))) x"
    by (simp_all add: read_field_None_iff)
  have "rest r = take n (rest r) @ drop n (rest r)" by simp
  also have "drop n (rest r) = rest r'" by (simp add: rest_def r' add.commute)
  finally have "rest r = take n (rest r) @ rest r'" .
  moreover have "length (take n (rest r)) = n" using le by (simp add: rest_def)
  ultimately show ?thesis using x' unfolding rest_def by blast
qed

lemma for_each_consumes:
  assumes "\<And>r e r' e'. e \<in> set es \<Longrightarrow> p r e = (None, r', e') \<Longrightarrow> rest r = enc e' @ rest r'"
  shows "for_each p r es = (None, r', es') \<Longrightarrow> rest r = concat (map enc es') @ rest r'"
  using assms
proof (induction es arbitrary: r r' es')
  case Nil
  then show ?case by simp
next
  case (Cons a es)
  obtain e1 r1 a1 where p: "p r a = (e1, r1, a1)" by (cases "p r a")
  obtain e2 r2 es2 where q: "for_each p r1 es = (e2, r2, es2)" by (cases "for_each p r1 es")
  from p q Cons.prems(1) have e1: "e1 = None" and e2: "e2 = None" and r2: "r2 = r'" and es': "es' = a1 # es2"
    by (auto split: option.splits)
  have "rest r = enc a1 @ rest r1" using Cons.prems(2) [of a r r1 a1] p e1 by simp
  moreover have "rest r1 = concat (map enc es2) @ rest r'"
    using q e2 r2 Cons.prems(2) by (intro Cons.IH) auto
  ultimately show ?case by (simp add: es')
qed

lemma vector3_parse_consumes:
  "vector3_parse r v = (None, r', v') \<Longrightarrow> rest r = vector3_bytes v' @ rest r'"
  unfolding vector3_parse_def
  apply (elim chain_ConsE chain_NilE)
  apply (drule read_field_consumes)+
  apply (clarsimp simp: vector3_bytes_def u32_bytes_u32_of)
  done

lemma arma_string_parse_consumes:
  "arma_string_parse r s = (None, r', s') \<Longrightarrow> rest r = arma_string_bytes s' @ rest r'"
  using arma_string_loop_success [of r "[]" r' s']
  by (auto simp: arma_string_parse_def arma_string_bytes_def)

lemma mlod_point_parse_consumes:
  "mlod_point_parse r p = (None, r', p') \<Longrightarrow> rest r = mlod_point_bytes p' @ rest r'"
  unfolding mlod_point_parse_def
  apply (elim chain_ConsE chain_NilE)
  apply (drule read_field_consumes)
  apply (clarsimp simp: in_field_iff mlod_point_bytes_def u32_bytes_u32_of)
  apply (drule vector3_parse_consumes)
  apply simp
  done

lemma mlod_face_parse_consumes:
  "mlod_face_parse r f = (None, r', f') \<Longrightarrow> rest r = mlod_face_bytes f' @ rest r'"
  unfolding mlod_face_parse_def
  apply (elim chain_ConsE chain_NilE)
  apply (drule read_field_consumes)+
  apply (clarsimp simp: in_field_iff assign_def mlod_face_bytes_def u32_bytes_u32_of)
  apply (drule arma_string_parse_consumes)+
  apply (drule for_each_consumes [where enc = vert_descriptor_bytes, rotated])
   apply (drule read_field_consumes)
   apply (clarsimp simp: vert_descriptor_bytes_of)
  apply simp
  done

lemma mlod_tag_parse_consumes:
  "mlod_tag_parse r t = (None, r', t') \<Longrightarrow> rest r = mlod_tag_bytes t' @ rest r'"
  unfolding mlod_tag_parse_def
  apply (elim chain_ConsE chain_NilE)
  apply (drule read_field_consumes)+
  apply (clarsimp simp: in_field_iff assign_def mlod_tag_bytes_def u32_bytes_u32_of)
  apply (drule arma_string_parse_consumes)
  apply (drule for_each_consumes [where enc = "\<lambda>b. [b]", rotated])
   apply (drule read_field_consumes)
   apply (clarsimp simp: u8_of_single)
  apply (simp add: concat_singletons u8_of_single)
  done

subsection \<open>The tag loop\<close>

lemma tags_loop_fail:
  "mlod_tag_parse r mlod_tag_zero = (Some m, r1, t) \<Longrightarrow> tags_loop r out = (Some m, r1, out)"
  by (subst tags_loop.simps) simp

lemma tags_loop_last:
  "mlod_tag_parse r mlod_tag_zero = (None, r1, t) \<Longrightarrow> tag_name t = str ''#EndOfFile#'' \<Longrightarrow>
   tags_loop r out = (None, r1, store_tag t out)"
  by (subst tags_loop.simps) simp

lemma tags_loop_more:
  "mlod_tag_parse r mlod_tag_zero = (None, r1, t) \<Longrightarrow> tag_name t \<noteq> str ''#EndOfFile#'' \<Longrightarrow>
   tags_loop r out = tags_loop r1 (store_tag t out)"
  by (subst tags_loop.simps) simp

lemma tags_loop_induct [case_names step]:
  assumes "\<And>r out.
     (\<And>r1 t. mlod_tag_parse r mlod_tag_zero = (None, r1, t) \<Longrightarrow> tag_name t \<noteq> str ''#EndOfFile#'' \<Longrightarrow>
        P r1 (store_tag t out)) \<Longrightarrow> P r out"
  shows "P r out"
proof (induction r out rule: tags_loop.induct)
  case (1 r out)
  show ?case
  proof (rule assms)
    fix r1 t
    assume "mlod_tag_parse r mlod_tag_zero = (None, r1, t)" "tag_name t \<noteq> str ''#EndOfFile#''"
    then show "P r1 (store_tag t out)" by (intro "1.IH" [of None "(r1, t)"]) simp_all
  qed
qed

lemma tags_loop_advances: "tags_loop r out = (e, r', out') \<Longrightarrow> advances r e r'"
proof (induction r out rule: tags_loop_induct)
  case (step r out)
  obtain e1 r1 t where p: "mlod_tag_parse r mlod_tag_zero = (e1, r1, t)"
    by (cases "mlod_tag_parse r mlod_tag_zero")
  have a1: "advances r e1 r1" by (rule forwardD [OF forward_mlod_tag_parse p])
  show ?case
  proof (cases e1)
    case (Some m)
    with p step.prems a1 show ?thesis by (simp add: tags_loop_fail)
  next
    case None
    show ?thesis
    proof (cases "tag_name t = str ''#EndOfFile#''")
      case True
      with p None step.prems a1 show ?thesis by (simp add: tags_loop_last)
    next
      case False
      with p None step.prems have "tags_loop r1 (store_tag t out) = (e, r', out')"
        by (simp add: tags_loop_more)
      with p None False have "advances r1 e r'" by (intro step.IH) simp_all
      with a1 None show ?thesis by (auto intro: advances_trans)
    qed
  qed
qed

lemma forward_tags_loop [parser_intros]: "forward tags_loop"
  by (rule forwardI) (rule tags_loop_advances)

lemma tags_loop_local:
  "tags_loop r out = (None, r', out') \<Longrightarrow>
   take (current_offset r') B = take (current_offset r') (buffer r) \<Longrightarrow>
   current_offset r' \<le> length B \<Longrightarrow>
   tags_loop (r\<lparr>buffer := B\<rparr>) out = (None, r'\<lparr>buffer := B\<rparr>, out')"
proof (induction r out rule: tags_loop_induct)
  case (step r out)
  obtain e1 r1 t where p: "mlod_tag_parse r mlod_tag_zero = (e1, r1, t)"
    by (cases "mlod_tag_parse r mlod_tag_zero")
  have e1: "e1 = None"
  proof (cases e1)
    case (Some m)
    with p step.prems(1) show ?thesis by (simp add: tags_loop_fail)
  qed simp
  have b1: "buffer r1 = buffer r" using forwardD [OF forward_mlod_tag_parse p] by (simp add: advances_def)
  show ?case
  proof (cases "tag_name t = str ''#EndOfFile#''")
    case True
    with p e1 step.prems(1) have r': "r' = r1" and out': "out' = store_tag t out"
      by (simp_all add: tags_loop_last)
    have "mlod_tag_parse (r\<lparr>buffer := B\<rparr>) mlod_tag_zero = (None, r1\<lparr>buffer := B\<rparr>, t)"
      using p e1 step.prems(2,3) r' by (intro prefix_localD [OF prefix_local_mlod_tag_parse]) simp_all
    with True r' out' show ?thesis by (simp add: tags_loop_last)
  next
    case False
    with p e1 step.prems(1) have rec: "tags_loop r1 (store_tag t out) = (None, r', out')"
      by (simp add: tags_loop_more)
    have adv: "advances r1 None r'" by (rule tags_loop_advances [OF rec])
    have "mlod_tag_parse (r\<lparr>buffer := B\<rparr>) mlod_tag_zero = (None, r1\<lparr>buffer := B\<rparr>, t)"
      using p e1 advances_agree [OF adv step.prems(2,3)]
      by (intro prefix_localD [OF prefix_local_mlod_tag_parse]) simp_all
    moreover have "tags_loop (r1\<lparr>buffer := B\<rparr>) (store_tag t out) = (None, r'\<lparr>buffer := B\<rparr>, out')"
      using p e1 False rec step.prems(2,3) b1 by (intro step.IH) simp_all
    ultimately show ?thesis using False by (simp add: tags_loop_more)
  qed
qed

lemma prefix_local_tags_loop [parser_intros]: "prefix_local tags_loop"
  by (rule prefix_localI) (rule tags_loop_local)

lemma tags_loop_success:
  "tags_loop r out = (None, r', out') \<Longrightarrow>
   \<exists>ts. ts \<noteq> [] \<and> tag_name (last ts) = str ''#EndOfFile#'' \<and> out' = fold store_tag ts out \<and>
        rest r = concat (map mlod_tag_bytes ts) @ rest r'"
proof (induction r out rule: tags_loop_induct)
  case (step r out)
  obtain e1 r1 t where p: "mlod_tag_parse r mlod_tag_zero = (e1, r1, t)"
    by (cases "mlod_tag_parse r mlod_tag_zero")
  have e1: "e1 = None"
  proof (cases e1)
    case (Some m)
    with p step.prems(1) show ?thesis by (simp add: tags_loop_fail)
  qed simp
  have bytes: "rest r = mlod_tag_bytes t @ rest r1"
    using p e1 by (intro mlod_tag_parse_consumes) simp
  show ?case
  proof (cases "tag_name t = str ''#EndOfFile#''")
    case True
    with p e1 step.prems(1) have "r' = r1" "out' = store_tag t out"
      by (simp_all add: tags_loop_last)
    with True bytes show ?thesis by (intro exI [of _ "[t]"]) simp
  next
    case False
    with p e1 step.prems(1) have rec: "tags_loop r1 (store_tag t out) = (None, r', out')"
      by (simp add: tags_loop_more)
    from step.IH [OF _ False rec] p e1
    obtain ts where ts: "ts \<noteq> []" "tag_name (last ts) = str ''#EndOfFile#''"
      "out' = fold store_tag ts (store_tag t out)" "rest r1 = concat (map mlod_tag_bytes ts) @ rest r'"
      by auto
    with bytes show ?thesis by (intro exI [of _ "t # ts"]) simp
  qed
qed

subsection \<open>What the tag loop leaves in the LOD\<close>

definition is_property :: "mlod_tag \<Rightarrow> bool" where
  "is_property t \<longleftrightarrow> tag_name t = str ''#Property#''"

definition is_mass :: "mlod_tag \<Rightarrow> bool" where
  "is_mass t \<longleftrightarrow> tag_name t = str ''#Mass#''"

lemma mass_not_property: "str ''#Mass#'' \<noteq> str ''#Property#''"
  by (simp add: str_def)

lemma fold_store_tag:
  "fold store_tag ts out =
     out\<lparr>tags := tags out @ ts,
         property_tags := property_tags out @ map property_tag_of (filter is_property ts),
         lod_mass := (if filter is_mass ts = [] then lod_mass out
                      else mass_tag_of (last (filter is_mass ts)) (num_points out))\<rparr>"
proof (induction ts arbitrary: out)
  case Nil
  then show ?case by simp
next
  case (Cons t ts)
  have "fold store_tag (t # ts) out = fold store_tag ts (store_tag t out)" by simp
  also have "\<dots> = (store_tag t out)
     \<lparr>tags := tags (store_tag t out) @ ts,
      property_tags := property_tags (store_tag t out) @ map property_tag_of (filter is_property ts),
      lod_mass := (if filter is_mass ts = [] then lod_mass (store_tag t out)
                   else mass_tag_of (last (filter is_mass ts)) (num_points (store_tag t out)))\<rparr>"
    by (rule Cons.IH)
  also have "\<dots> = out
     \<lparr>tags := tags out @ t # ts,
      property_tags := property_tags out @ map property_tag_of (filter is_property (t # ts)),
      lod_mass := (if filter is_mass (t # ts) = [] then lod_mass out
                   else mass_tag_of (last (filter is_mass (t # ts))) (num_points out))\<rparr>"
    using mass_not_property by (simp add: store_tag_def is_property_def is_mass_def Let_def)
  finally show ?case .
qed

lemma forward_mlod_lod_parse [parser_intros]: "forward mlod_lod_parse"
  unfolding mlod_lod_parse_def
  by (rule forward_chain) (simp add: parser_intros mlod_error_messages_def)

lemma prefix_local_mlod_lod_parse [parser_intros]: "prefix_local mlod_lod_parse"
  unfolding mlod_lod_parse_def
  by (rule prefix_local_chain) (simp add: parser_intros mlod_error_messages_def)

lemma forward_p3d_header_parse [parser_intros]: "forward p3d_header_parse"
  unfolding p3d_header_parse_def
  by (rule forward_chain) (simp add: parser_intros mlod_error_messages_def)

lemma prefix_local_p3d_header_parse [parser_intros]: "prefix_local p3d_header_parse"
  unfolding p3d_header_parse_def
  by (rule prefix_local_chain) (simp add: parser_intros mlod_error_messages_def)

lemma forward_mlod_p3d_parse [parser_intros]: "forward mlod_p3d_parse"
  unfolding mlod_p3d_parse_def
  by (rule forward_chain) (simp add: parser_intros mlod_error_messages_def)

lemma prefix_local_mlod_p3d_parse [parser_intros]: "prefix_local mlod_p3d_parse"
  unfolding mlod_p3d_parse_def
  by (rule prefix_local_chain) (simp add: parser_intros mlod_error_messages_def)

lemma for_each_consumes_length:
  assumes "for_each p r es = (None, r', es')"
    and "\<And>r e r' e'. p r e = (None, r', e') \<Longrightarrow> rest r = enc e' @ rest r'"
  shows "rest r = concat (map enc es') @ rest r' \<and> length es' = length es"
  using for_each_consumes [of es p enc r r' es'] for_each_length [OF assms(1)] assms by blast

lemma mlod_lod_parse_success:
  assumes "mlod_lod_parse r l = (None, r', l')"
  shows "\<exists>ts. ts \<noteq> [] \<and> tag_name (last ts) = str ''#EndOfFile#'' \<and> tags l' = tags l @ ts \<and>
     property_tags l' = property_tags l @ map property_tag_of (filter is_property ts) \<and>
     lod_mass l' = (if filter is_mass ts = [] then lod_mass l
                    else mass_tag_of (last (filter is_mass ts)) (num_points l')) \<and>
     rest r = mlod_lod_bytes (l'\<lparr>tags := ts\<rparr>) @ rest r' \<and>
     length (points l') = unat (num_points l') \<and>
     length (normals l') = unat (num_face_normals l') \<and>
     length (faces l') = unat (num_faces l')"
  using assms unfolding mlod_lod_parse_def
  apply (elim chain_ConsE chain_NilE)
  apply (drule read_field_consumes)+
  apply (drule tags_loop_success)
  apply (elim exE conjE)
  apply (rule_tac x = ts in exI)
  apply (clarsimp simp: in_field_iff assign_def fold_store_tag)
  apply (drule for_each_consumes_length [where enc = mlod_point_bytes, OF _ mlod_point_parse_consumes], assumption)
  apply (drule for_each_consumes_length [where enc = vector3_bytes, OF _ vector3_parse_consumes], assumption)
  apply (drule for_each_consumes_length [where enc = mlod_face_bytes, OF _ mlod_face_parse_consumes], assumption)
  apply (clarsimp simp: mlod_lod_bytes_def u32_bytes_u32_of signature_bytes_signature_of)
  done

lemma p3d_header_parse_consumes:
  "p3d_header_parse r h = (None, r', h') \<Longrightarrow> rest r = p3d_header_bytes h' @ rest r'"
  unfolding p3d_header_parse_def
  apply (elim chain_ConsE chain_NilE)
  apply (drule read_field_consumes)+
  apply (clarsimp simp: p3d_header_bytes_def u32_bytes_u32_of signature_bytes_signature_of)
  done

lemma fresh_lod_parse_consumes:
  assumes "mlod_lod_parse r mlod_lod_default = (None, r', l')"
  shows "rest r = mlod_lod_bytes l' @ rest r'"
proof -
  from mlod_lod_parse_success [OF assms] obtain ts
    where "tags l' = tags mlod_lod_default @ ts" and bytes: "rest r = mlod_lod_bytes (l'\<lparr>tags := ts\<rparr>) @ rest r'"
    by blast
  then have "l'\<lparr>tags := ts\<rparr> = l'" by (simp add: mlod_lod_default_def)
  with bytes show ?thesis by simp
qed

lemma resize_Nil: "resize n d [] = replicate n d"
  by (simp add: resize_def)

lemma mlod_p3d_parse_success:
  assumes "mlod_p3d_parse r d = (None, r', d')" and "lods d = []"
  shows "rest r = mlod_p3d_bytes d' @ rest r' \<and> length (lods d') = unat (lod_count (header d'))"
  using assms unfolding mlod_p3d_parse_def
  apply (elim chain_ConsE chain_NilE)
  apply (clarsimp simp: in_field_iff assign_def resize_Nil mlod_p3d_bytes_def)
  apply (drule p3d_header_parse_consumes)
  apply (frule for_each_length)
  apply (drule for_each_consumes [where enc = mlod_lod_bytes, rotated])
   apply (simp add: fresh_lod_parse_consumes)
  apply simp
  done

text \<open>What \<open>decode\<close> returns, in terms of \<^verbatim>\<open>mlod_p3d::parse\<close>.\<close>

lemma decode_Inr_iff:
  "decode B = Inr D \<longleftrightarrow> (\<exists>r'. mlod_p3d_parse (binary_reader_init B) mlod_p3d_default = (None, r', D))"
  by (auto simp: decode_def split: prod.splits option.splits)

lemma decode_Inl_iff:
  "decode B = Inl m \<longleftrightarrow> (\<exists>r' D. mlod_p3d_parse (binary_reader_init B) mlod_p3d_default = (Some m, r', D))"
  by (auto simp: decode_def split: prod.splits option.splits)

lemma rest_init [simp]: "rest (binary_reader_init B) = B"
  by (simp add: rest_def binary_reader_init_def)

lemma parse_document_consumes:
  assumes "mlod_p3d_parse (binary_reader_init B) mlod_p3d_default = (None, r', D)"
  shows "B = encode D @ drop (current_offset r') B" and "current_offset r' = length (encode D)"
    and "buffer r' = B" and "length (lods D) = unat (lod_count (header D))"
proof -
  have adv: "advances (binary_reader_init B) None r'"
    by (rule forwardD [OF forward_mlod_p3d_parse assms])
  then have b: "buffer r' = B" and le: "current_offset r' \<le> length B"
    by (simp_all add: advances_def binary_reader_init_def)
  show "buffer r' = B" by (rule b)
  from mlod_p3d_parse_success [OF assms]
  have "B = mlod_p3d_bytes D @ rest r'" and n: "length (lods D) = unat (lod_count (header D))"
    by (simp_all add: mlod_p3d_default_def)
  then show eq: "B = encode D @ drop (current_offset r') B" by (simp add: encode_layout rest_def b)
  from arg_cong [OF eq, of length] le show "current_offset r' = length (encode D)" by simp
  show "length (lods D) = unat (lod_count (header D))" by (rule n)
qed

lemma parse_document_agree:
  assumes "mlod_p3d_parse (binary_reader_init B) mlod_p3d_default = (None, r', D)"
    and "take (length (encode D)) B' = encode D"
  shows "mlod_p3d_parse (binary_reader_init B') mlod_p3d_default = (None, r'\<lparr>buffer := B'\<rparr>, D)"
proof -
  note c = parse_document_consumes [OF assms(1)]
  have pre: "take (current_offset r') B = encode D"
    using arg_cong [OF c(1), of "take (length (encode D))"] c(2) by simp
  have len: "current_offset r' \<le> length B'"
    using arg_cong [OF assms(2), of length] c(2) by simp
  have "mlod_p3d_parse ((binary_reader_init B)\<lparr>buffer := B'\<rparr>) mlod_p3d_default =
        (None, r'\<lparr>buffer := B'\<rparr>, D)"
    using assms(2) pre c(2) len
    by (intro prefix_localD [OF prefix_local_mlod_p3d_parse assms(1)]) (simp_all add: binary_reader_init_def)
  then show ?thesis by (simp add: binary_reader_init_def)
qed


subsection \<open>The two projections\<close>

lemma read_each_bytes:
  "read_each 1 u8_of r (replicate n 0) =
     (r\<lparr>current_offset := current_offset r + min n (length (rest r))\<rparr>,
      take n (rest r) @ replicate (n - length (rest r)) 0)"
proof (induction n arbitrary: r)
  case 0
  then show ?case by simp
next
  case (Suc n)
  show ?case
  proof (cases "current_offset r < length (buffer r)")
    case True
    let ?r1 = "r\<lparr>current_offset := current_offset r + 1\<rparr>"
    have rs: "rest r = buffer r ! current_offset r # rest ?r1" by (rule rest_Cons [OF True])
    show ?thesis
      using read_one [OF True] Suc.IH [of ?r1] by (simp add: rs u8_of_def)
  next
    case False
    then have rd: "binary_reader_read 1 r = (None, r)" by (simp add: binary_reader_read_def)
    from False have rs: "rest r = []" by (simp add: rest_Nil)
    show ?thesis using rd Suc.IH [of r] by (simp add: rs)
  qed
qed

lemma property_tag_of_padded:
  "property_tag_of t =
     \<lparr>prop_key = take 64 (tag_data t) @ replicate (64 - length (tag_data t)) 0,
      prop_value = take 64 (drop 64 (tag_data t)) @ replicate (64 - length (drop 64 (tag_data t))) 0\<rparr>"
proof -
  let ?r = "binary_reader_init (tag_data t)"
  let ?r1 = "?r\<lparr>current_offset := current_offset ?r + min 64 (length (rest ?r))\<rparr>"
  have r1: "rest ?r1 = drop 64 (tag_data t)"
    by (cases "64 \<le> length (tag_data t)") (simp_all add: rest_def binary_reader_init_def min_def)
  show ?thesis
    unfolding property_tag_of_def resize_Nil Let_def read_each_bytes prod.case r1
    unfolding rest_init by (rule refl)
qed

lemma read_each_floats:
  "snd (read_each 4 u32_of r (replicate n 0)) =
     map (\<lambda>i. if 4 * Suc i \<le> length (rest r) then u32_of (take 4 (drop (4 * i) (rest r))) else 0) [0..<n]"
proof (induction n arbitrary: r)
  case 0
  then show ?case by simp
next
  case (Suc n)
  have upt: "[0..<Suc n] = 0 # map Suc [0..<n]" by (simp only: upt_conv_Cons [OF zero_less_Suc] map_Suc_upt)
  show ?case
  proof (cases "current_offset r + 4 \<le> length (buffer r)")
    case True
    let ?r1 = "r\<lparr>current_offset := current_offset r + 4\<rparr>"
    have rd: "binary_reader_read 4 r = (Some (take 4 (rest r)), ?r1)"
      using True by (simp add: binary_reader_read_def rest_def)
    have r1: "rest ?r1 = drop 4 (rest r)" by (simp add: rest_def add.commute)
    have len: "4 \<le> length (rest r)" using True by (simp add: length_rest)
    have "snd (read_each 4 u32_of r (replicate (Suc n) 0)) =
          u32_of (take 4 (rest r)) # snd (read_each 4 u32_of ?r1 (replicate n 0))"
      using rd by (simp split: prod.splits)
    also have "snd (read_each 4 u32_of ?r1 (replicate n 0)) =
          map (\<lambda>i. if 4 * Suc (Suc i) \<le> length (rest r)
                    then u32_of (take 4 (drop (4 * Suc i) (rest r))) else 0) [0..<n]"
      unfolding Suc.IH [of ?r1] r1 using len by (intro map_cong refl) (auto simp: add.commute)
    finally show ?thesis using len by (simp add: upt comp_def del: upt_Suc)
  next
    case False
    then have rd: "binary_reader_read 4 r = (None, r)" by (simp add: binary_reader_read_def)
    from False have len: "length (rest r) < 4" by (simp add: length_rest)
    have "snd (read_each 4 u32_of r (replicate (Suc n) 0)) =
          0 # snd (read_each 4 u32_of r (replicate n 0))"
      using rd by (simp split: prod.splits)
    also have "snd (read_each 4 u32_of r (replicate n 0)) =
          map (\<lambda>i. if 4 * Suc (Suc i) \<le> length (rest r)
                    then u32_of (take 4 (drop (4 * Suc i) (rest r))) else 0) [0..<n]"
      unfolding Suc.IH [of r] using len by (intro map_cong refl) auto
    finally show ?thesis using len by (simp add: upt comp_def del: upt_Suc)
  qed
qed

lemma mass_tag_of_padded:
  "mass (mass_tag_of t n) =
     map (\<lambda>i. if 4 * Suc i \<le> length (tag_data t) then u32_of (take 4 (drop (4 * i) (tag_data t))) else 0)
       [0..<unat n]"
proof -
  have "mass (mass_tag_of t n) =
        snd (read_each 4 u32_of (binary_reader_init (tag_data t)) (replicate (unat n) 0))"
    unfolding mass_tag_of_def resize_Nil Let_def split_def by simp
  then show ?thesis unfolding read_each_floats rest_init .
qed

lemma last_tag_bytes:
  assumes "ts \<noteq> []" and "tag_name (last ts) = n"
  shows "\<exists>pre post. concat (map mlod_tag_bytes ts) = pre @ n @ [0] @ post"
proof -
  have "concat (map mlod_tag_bytes (butlast ts @ [last ts])) =
      concat (map mlod_tag_bytes (butlast ts)) @ mlod_tag_bytes (last ts)"
    by simp
  then have "concat (map mlod_tag_bytes ts) =
      concat (map mlod_tag_bytes (butlast ts)) @ mlod_tag_bytes (last ts)"
    by (simp only: append_butlast_last_id [OF assms(1)])
  also have "mlod_tag_bytes (last ts) =
      [active (last ts)] @ n @ [0] @ (u32_bytes (data_length (last ts)) @ tag_data (last ts))"
    by (simp add: mlod_tag_bytes_def arma_string_bytes_def assms(2))
  finally have "concat (map mlod_tag_bytes ts) =
      (concat (map mlod_tag_bytes (butlast ts)) @ [active (last ts)]) @ n @ [0] @
      (u32_bytes (data_length (last ts)) @ tag_data (last ts))"
    by simp
  then show ?thesis by blast
qed

section \<open>Which read fails where\<close>

text \<open>
  The reads a struct takes, in the order of its layout: the message of each read and
  the number of bytes it takes.
\<close>

type_synonym field_map = "(mlod_error \<times> nat) list"

text \<open>The message of the read that byte \<open>k\<close> of the layout belongs to.\<close>

fun field_at :: "field_map \<Rightarrow> nat \<Rightarrow> mlod_error" where
  "field_at [] k = []"
| "field_at ((m, n) # F) k = (if k < n then m else field_at F (k - n))"

definition field_sizes :: "field_map \<Rightarrow> nat" where
  "field_sizes F = sum_list (map snd F)"

text \<open>
  Parser \<open>p\<close>, started on the object \<open>x\<close>, decodes the bytes \<open>bs\<close> to \<open>v\<close> by the reads \<open>F\<close>:
  wherever \<open>bs\<close> stands at the reader's position, \<open>p\<close> succeeds with \<open>v\<close> and stops behind
  \<open>bs\<close>; and where the buffer ends after only \<open>k\<close> bytes of \<open>bs\<close>, \<open>p\<close> fails with the
  message of the read that byte \<open>k\<close> belongs to.
\<close>

definition decodes :: "'a parser \<Rightarrow> 'a \<Rightarrow> 'a \<Rightarrow> byte list \<Rightarrow> field_map \<Rightarrow> bool" where
  "decodes p x v bs F \<longleftrightarrow>
     field_sizes F = length bs \<and>
     (\<forall>r ys. rest r = bs @ ys \<longrightarrow>
        p r x = (None, r\<lparr>current_offset := current_offset r + length bs\<rparr>, v)) \<and>
     (\<forall>r k. k < length bs \<longrightarrow> rest r = take k bs \<longrightarrow> fst (p r x) = Some (field_at F k))"

lemma decodesI:
  assumes "field_sizes F = length bs"
    and "\<And>r ys. rest r = bs @ ys \<Longrightarrow>
        p r x = (None, r\<lparr>current_offset := current_offset r + length bs\<rparr>, v)"
    and "\<And>r k. k < length bs \<Longrightarrow> rest r = take k bs \<Longrightarrow> fst (p r x) = Some (field_at F k)"
  shows "decodes p x v bs F"
  using assms unfolding decodes_def by blast

lemma decodes_size: "decodes p x v bs F \<Longrightarrow> field_sizes F = length bs"
  unfolding decodes_def by blast

lemma decodes_success:
  "decodes p x v bs F \<Longrightarrow> rest r = bs @ ys \<Longrightarrow>
   p r x = (None, r\<lparr>current_offset := current_offset r + length bs\<rparr>, v)"
  unfolding decodes_def by blast

lemma decodes_failure:
  "decodes p x v bs F \<Longrightarrow> k < length bs \<Longrightarrow> rest r = take k bs \<Longrightarrow>
   fst (p r x) = Some (field_at F k)"
  unfolding decodes_def by blast

lemma decodes_cong:
  "decodes p x v bs F \<Longrightarrow> v = v' \<Longrightarrow> bs = bs' \<Longrightarrow> F = F' \<Longrightarrow> decodes p x v' bs' F'"
  by simp

lemma field_sizes_append [simp]: "field_sizes (F @ G) = field_sizes F + field_sizes G"
  by (simp add: field_sizes_def)

lemma field_sizes_Nil [simp]: "field_sizes [] = 0"
  by (simp add: field_sizes_def)

lemma field_sizes_Cons [simp]: "field_sizes ((m, n) # F) = n + field_sizes F"
  by (simp add: field_sizes_def)

lemma field_at_append:
  "field_at (F @ G) k = (if k < field_sizes F then field_at F k else field_at G (k - field_sizes F))"
proof (induction F arbitrary: k)
  case Nil
  then show ?case by simp
next
  case (Cons a F)
  obtain m n where a: "a = (m, n)" by (cases a)
  show ?case by (auto simp: a Cons.IH)
qed

lemma rest_advance:
  "rest r = bs @ ys \<Longrightarrow> rest (r\<lparr>current_offset := current_offset r + length bs\<rparr>) = ys"
proof -
  assume a: "rest r = bs @ ys"
  have "rest (r\<lparr>current_offset := current_offset r + length bs\<rparr>) = drop (length bs) (rest r)"
    by (simp add: rest_def add.commute)
  then show ?thesis by (simp add: a)
qed

lemma decodes_read_field:
  assumes "length bs = n" and "0 < n"
  shows "decodes (read_field n msg st) x (st bs x) bs [(msg, n)]"
proof (rule decodesI)
  show "field_sizes [(msg, n)] = length bs" using assms by simp
next
  fix r ys assume r: "rest r = bs @ ys"
  then have "n \<le> length (rest r)" using assms by simp
  with assms(2) have le: "current_offset r + n \<le> length (buffer r)" by (simp add: length_rest)
  have "take n (drop (current_offset r) (buffer r)) = bs"
    using r assms(1) by (simp add: rest_def)
  with le show "read_field n msg st r x = (None, r\<lparr>current_offset := current_offset r + length bs\<rparr>, st bs x)"
    by (simp add: read_field_None_iff assms(1))
next
  fix r k assume k: "k < length bs" and r: "rest r = take k bs"
  from arg_cong [OF r, of length] k have "length (buffer r) - current_offset r = k"
    by (simp add: length_rest)
  with k assms(1) have "length (buffer r) < current_offset r + n" by simp
  then show "fst (read_field n msg st r x) = Some (field_at [(msg, n)] k)"
    using k assms(1) by (simp add: read_field_def binary_reader_read_def)
qed

lemma decodes_in_field:
  "decodes p (g x) v bs F \<Longrightarrow> decodes (in_field g s p) x (s v x) bs F"
  unfolding decodes_def in_field_def by (simp add: split_def)

lemma decodes_assign: "decodes (assign f) x (f x) [] []"
  unfolding decodes_def assign_def by simp

lemma decodes_chain_Nil: "decodes (chain []) x x [] []"
  unfolding decodes_def by simp

lemma decodes_chain_Cons:
  assumes p: "decodes p x v1 b1 F1" and q: "decodes (chain ps) v1 v2 b2 F2"
  shows "decodes (chain (p # ps)) x v2 (b1 @ b2) (F1 @ F2)"
proof (rule decodesI)
  show "field_sizes (F1 @ F2) = length (b1 @ b2)"
    using decodes_size [OF p] decodes_size [OF q] by simp
next
  fix r ys assume r: "rest r = (b1 @ b2) @ ys"
  let ?r1 = "r\<lparr>current_offset := current_offset r + length b1\<rparr>"
  from r have r': "rest r = b1 @ (b2 @ ys)" by simp
  have 1: "p r x = (None, ?r1, v1)" by (rule decodes_success [OF p r'])
  have "rest ?r1 = b2 @ ys" by (rule rest_advance [OF r'])
  from decodes_success [OF q this] have 2:
    "chain ps ?r1 v1 = (None, ?r1\<lparr>current_offset := current_offset ?r1 + length b2\<rparr>, v2)" .
  show "chain (p # ps) r x = (None, r\<lparr>current_offset := current_offset r + length (b1 @ b2)\<rparr>, v2)"
    using 1 2 by (simp add: add.assoc)
next
  fix r k assume k: "k < length (b1 @ b2)" and r: "rest r = take k (b1 @ b2)"
  show "fst (chain (p # ps) r x) = Some (field_at (F1 @ F2) k)"
  proof (cases "k < length b1")
    case True
    with r have "rest r = take k b1" by simp
    from decodes_failure [OF p True this] have "fst (p r x) = Some (field_at F1 k)" .
    then show ?thesis using True decodes_size [OF p]
      by (cases "p r x") (simp add: field_at_append)
  next
    case False
    let ?r1 = "r\<lparr>current_offset := current_offset r + length b1\<rparr>"
    from False r have r': "rest r = b1 @ take (k - length b1) b2" by simp
    have 1: "p r x = (None, ?r1, v1)" by (rule decodes_success [OF p r'])
    have r1: "rest ?r1 = take (k - length b1) b2" by (rule rest_advance [OF r'])
    have "k - length b1 < length b2" using k False by simp
    from decodes_failure [OF q this r1]
    have "fst (chain ps ?r1 v1) = Some (field_at F2 (k - length b1))" .
    then show ?thesis using 1 False decodes_size [OF p] by (simp add: field_at_append)
  qed
qed

lemma decodes_for_each_Nil: "decodes (for_each p) [] [] [] []"
  unfolding decodes_def by simp

lemma decodes_for_each_Cons:
  assumes p: "decodes p e v b1 F1" and q: "decodes (for_each p) es vs b2 F2"
  shows "decodes (for_each p) (e # es) (v # vs) (b1 @ b2) (F1 @ F2)"
proof (rule decodesI)
  show "field_sizes (F1 @ F2) = length (b1 @ b2)"
    using decodes_size [OF p] decodes_size [OF q] by simp
next
  fix r ys assume r: "rest r = (b1 @ b2) @ ys"
  let ?r1 = "r\<lparr>current_offset := current_offset r + length b1\<rparr>"
  from r have r': "rest r = b1 @ (b2 @ ys)" by simp
  have 1: "p r e = (None, ?r1, v)" by (rule decodes_success [OF p r'])
  have "rest ?r1 = b2 @ ys" by (rule rest_advance [OF r'])
  from decodes_success [OF q this] have 2:
    "for_each p ?r1 es = (None, ?r1\<lparr>current_offset := current_offset ?r1 + length b2\<rparr>, vs)" .
  show "for_each p r (e # es) =
      (None, r\<lparr>current_offset := current_offset r + length (b1 @ b2)\<rparr>, v # vs)"
    using 1 2 by (simp add: add.assoc)
next
  fix r k assume k: "k < length (b1 @ b2)" and r: "rest r = take k (b1 @ b2)"
  show "fst (for_each p r (e # es)) = Some (field_at (F1 @ F2) k)"
  proof (cases "k < length b1")
    case True
    with r have "rest r = take k b1" by simp
    from decodes_failure [OF p True this] have "fst (p r e) = Some (field_at F1 k)" .
    then show ?thesis using True decodes_size [OF p]
      by (cases "p r e") (simp add: field_at_append)
  next
    case False
    let ?r1 = "r\<lparr>current_offset := current_offset r + length b1\<rparr>"
    from False r have r': "rest r = b1 @ take (k - length b1) b2" by simp
    have 1: "p r e = (None, ?r1, v)" by (rule decodes_success [OF p r'])
    have r1: "rest ?r1 = take (k - length b1) b2" by (rule rest_advance [OF r'])
    have "k - length b1 < length b2" using k False by simp
    from decodes_failure [OF q this r1]
    have "fst (for_each p ?r1 es) = Some (field_at F2 (k - length b1))" .
    then show ?thesis using 1 False decodes_size [OF p]
      by (simp add: field_at_append split_def)
  qed
qed

lemma decodes_for_each:
  assumes "list_all2 (\<lambda>e v. decodes p e v (enc v) (fld v)) es vs"
  shows "decodes (for_each p) es vs (concat (map enc vs)) (concat (map fld vs))"
  using assms
proof (induction es vs rule: list_all2_induct)
  case Nil
  show ?case by (simp add: decodes_for_each_Nil)
next
  case (Cons e es v vs)
  from decodes_for_each_Cons [OF Cons.hyps(1) Cons.IH] show ?case by simp
qed

lemma field_at_replicate: "k < n \<Longrightarrow> field_at (replicate n (m, Suc 0)) k = m"
proof (induction n arbitrary: k)
  case 0
  then show ?case by simp
next
  case (Suc n)
  then show ?case by (cases k) simp_all
qed

lemma field_sizes_replicate [simp]: "field_sizes (replicate n (m, j)) = n * j"
  by (induction n) simp_all

text \<open>
  The reads of each parse function in the order it makes them, each with the message
  it passes to \<^verbatim>\<open>mlod_error\<close> and the \<^verbatim>\<open>sizeof\<close> of what it reads. A string is one read of
  one byte for each of its bytes and for the NUL.
\<close>

definition arma_string_fields :: "arma_string \<Rightarrow> field_map" where
  "arma_string_fields s = replicate (length s + 1) (''failed to read arma_string[n]'', 1)"

lemma decodes_arma_string_parse:
  assumes "0 \<notin> set s"
  shows "decodes arma_string_parse x s (arma_string_bytes s) (arma_string_fields s)"
proof (rule decodesI)
  show "field_sizes (arma_string_fields s) = length (arma_string_bytes s)"
    by (simp add: arma_string_fields_def arma_string_bytes_def)
next
  fix r ys assume "rest r = arma_string_bytes s @ ys"
  then have "rest r = s @ 0 # ys" by (simp add: arma_string_bytes_def)
  from arma_string_loop_complete [OF this assms, of "[]"]
  show "arma_string_parse r x =
      (None, r\<lparr>current_offset := current_offset r + length (arma_string_bytes s)\<rparr>, s)"
    by (simp add: arma_string_parse_def arma_string_bytes_def)
next
  fix r k assume k: "k < length (arma_string_bytes s)" and r: "rest r = take k (arma_string_bytes s)"
  from k have ks: "k \<le> length s" by (simp add: arma_string_bytes_def)
  with r have "rest r = take k s" by (simp add: arma_string_bytes_def)
  with assms have "0 \<notin> set (rest r)" by (auto dest: in_set_takeD)
  from arma_string_loop_fails [OF this, of "[]"]
  have "fst (arma_string_parse r x) = Some ''failed to read arma_string[n]''"
    by (auto simp: arma_string_parse_def)
  moreover have "field_at (arma_string_fields s) k = ''failed to read arma_string[n]''"
    using ks by (simp add: arma_string_fields_def field_at_replicate)
  ultimately show "fst (arma_string_parse r x) = Some (field_at (arma_string_fields s) k)" by simp
qed

subsection \<open>Object representations written and read back\<close>

lemma u32_of_u32_bytes [simp]: "u32_of (u32_bytes w) = w"
proof -
  have "bit (ucast (ucast w :: byte) OR push_bit 8 (ucast (ucast (drop_bit 8 w) :: byte)) OR
     push_bit 16 (ucast (ucast (drop_bit 16 w) :: byte)) OR
     push_bit 24 (ucast (ucast (drop_bit 24 w) :: byte)) :: 32 word) n = bit w n" for n
    by (cases "n < 8"; cases "n < 16"; cases "n < 24"; cases "n < 32")
       (auto simp: bit_simps dest: bit_imp_le_length)
  then have "(ucast (ucast w :: byte) OR push_bit 8 (ucast (ucast (drop_bit 8 w) :: byte)) OR
     push_bit 16 (ucast (ucast (drop_bit 16 w) :: byte)) OR
     push_bit 24 (ucast (ucast (drop_bit 24 w) :: byte)) :: 32 word) = w"
    by (rule bit_eqI)
  then show ?thesis by (simp add: u32_bytes_def u32_of_def)
qed

lemma signature_of_signature_bytes [simp]: "signature_of (signature_bytes s) = s"
  by (cases s) (simp add: signature_of_def signature_bytes_def)

lemma length_signature_bytes [simp]: "length (signature_bytes s) = 4"
  by (cases s) (simp add: signature_bytes_def)

lemma u8_of_one [simp]: "u8_of [b] = b"
  by (simp add: u8_of_def)

lemma length_vert_descriptor_bytes [simp]: "length (vert_descriptor_bytes d) = 16"
  by (simp add: vert_descriptor_bytes_def)

lemma vert_descriptor_of_bytes [simp]: "vert_descriptor_of (vert_descriptor_bytes d) = d"
  by (simp add: vert_descriptor_of_def vert_descriptor_bytes_def)

subsection \<open>The reads of the structs\<close>

definition vector3_fields :: field_map where
  "vector3_fields =
     [(''failed to read vector3.x'', 4), (''failed to read vector3.y'', 4), (''failed to read vector3.z'', 4)]"

definition mlod_point_fields :: field_map where
  "mlod_point_fields = vector3_fields @ [(''failed to read mlod_point.flags'', 4)]"

text \<open>A face reads each of its vertex descriptors in one piece of 16 bytes.\<close>

definition mlod_face_fields :: "mlod_face \<Rightarrow> field_map" where
  "mlod_face_fields f =
     [(''failed to read mlod_face.face_type'', 4)] @
     replicate (length (vertices f)) (''failed to read mlod_face.vertices[n]'', 16) @
     [(''failed to read mlod_face.face_flags'', 4)] @
     arma_string_fields (texture_name f) @ arma_string_fields (material_name f)"

definition mlod_tag_fields :: "mlod_tag \<Rightarrow> field_map" where
  "mlod_tag_fields t =
     [(''failed to read mlod_tag.active'', 1)] @ arma_string_fields (tag_name t) @
     [(''failed to read mlod_tag.data_length'', 4)] @
     replicate (length (tag_data t)) (''failed to read mlod_tag.data[m]'', 1)"

lemma decodes_vector3_parse: "decodes vector3_parse e v (vector3_bytes v) vector3_fields"
proof -
  have "decodes vector3_parse e v
      (u32_bytes (vec_x v) @ u32_bytes (vec_y v) @ u32_bytes (vec_z v) @ [])
      ([(''failed to read vector3.x'', 4)] @ [(''failed to read vector3.y'', 4)] @
       [(''failed to read vector3.z'', 4)] @ [])"
    unfolding vector3_parse_def
    apply (rule decodes_chain_Cons, rule decodes_read_field, simp, simp)+
    apply (rule decodes_cong [OF decodes_chain_Nil]; simp)
    done
  then show ?thesis by (simp add: vector3_bytes_def vector3_fields_def)
qed

lemma decodes_mlod_point_parse: "decodes mlod_point_parse e v (mlod_point_bytes v) mlod_point_fields"
proof -
  have "decodes mlod_point_parse e v
      (vector3_bytes (pos v) @ u32_bytes (point_flags v) @ [])
      (vector3_fields @ [(''failed to read mlod_point.flags'', 4)] @ [])"
    unfolding mlod_point_parse_def
    apply (rule decodes_chain_Cons, rule decodes_in_field, rule decodes_vector3_parse)
    apply (rule decodes_chain_Cons, rule decodes_read_field, simp, simp)
    apply (rule decodes_cong [OF decodes_chain_Nil]; simp)
    done
  then show ?thesis by (simp add: mlod_point_bytes_def mlod_point_fields_def)
qed

lemma list_all2_same_length:
  "length es = length vs \<Longrightarrow> (\<And>e v. P e v) \<Longrightarrow> list_all2 P es vs"
  by (simp add: list_all2_conv_all_nth)

lemma concat_map_single: "concat (map (\<lambda>_. [x]) xs) = replicate (length xs) x"
  by (induction xs) simp_all

lemma decodes_vertex:
  "decodes (read_field 16 ''failed to read mlod_face.vertices[n]'' (\<lambda>bs d. vert_descriptor_of bs)) e v
     (vert_descriptor_bytes v) [(''failed to read mlod_face.vertices[n]'', 16)]"
  by (rule decodes_cong [OF decodes_read_field]) simp_all

lemma decodes_data_byte:
  "decodes (read_field 1 ''failed to read mlod_tag.data[m]'' (\<lambda>bs b. u8_of bs)) e v
     [v] [(''failed to read mlod_tag.data[m]'', 1)]"
  by (rule decodes_cong [OF decodes_read_field]) simp_all

text \<open>
  A face and a tag as the parse functions leave them: four vertex descriptors, no NUL
  inside a string, and as many data bytes as \<^verbatim>\<open>data_length\<close> says.
\<close>

definition wf_face :: "mlod_face \<Rightarrow> bool" where
  "wf_face f \<longleftrightarrow>
     length (vertices f) = 4 \<and> 0 \<notin> set (texture_name f) \<and> 0 \<notin> set (material_name f)"

definition wf_tag :: "mlod_tag \<Rightarrow> bool" where
  "wf_tag t \<longleftrightarrow> 0 \<notin> set (tag_name t) \<and> length (tag_data t) = unat (data_length t)"

lemma decodes_mlod_face_parse:
  assumes "wf_face f"
  shows "decodes mlod_face_parse e f (mlod_face_bytes f) (mlod_face_fields f)"
proof -
  from assms have len: "length (vertices f) = 4"
    and tex: "0 \<notin> set (texture_name f)" and mat: "0 \<notin> set (material_name f)"
    by (simp_all add: wf_face_def)
  have "decodes mlod_face_parse e f
      (u32_bytes (face_type f) @ [] @ concat (map vert_descriptor_bytes (vertices f)) @
       u32_bytes (face_flags f) @ arma_string_bytes (texture_name f) @
       arma_string_bytes (material_name f) @ [])
      ([(''failed to read mlod_face.face_type'', 4)] @ [] @
       concat (map (\<lambda>d. [(''failed to read mlod_face.vertices[n]'', 16)]) (vertices f)) @
       [(''failed to read mlod_face.face_flags'', 4)] @
       arma_string_fields (texture_name f) @ arma_string_fields (material_name f) @ [])"
    unfolding mlod_face_parse_def
    apply (rule decodes_chain_Cons, rule decodes_read_field, simp, simp)
    apply (rule decodes_chain_Cons, rule decodes_assign)
    apply (rule decodes_chain_Cons, rule decodes_in_field, rule decodes_for_each)
     apply (rule list_all2_same_length, simp add: len, rule decodes_vertex)
    apply (rule decodes_chain_Cons, rule decodes_read_field, simp, simp)
    apply (rule decodes_chain_Cons, rule decodes_in_field, rule decodes_arma_string_parse [OF tex])
    apply (rule decodes_chain_Cons, rule decodes_in_field, rule decodes_arma_string_parse [OF mat])
    apply (rule decodes_cong [OF decodes_chain_Nil]; simp)
    done
  then show ?thesis by (simp add: mlod_face_bytes_def mlod_face_fields_def concat_map_single map_replicate_const)
qed

lemma decodes_mlod_tag_parse:
  assumes "wf_tag t"
  shows "decodes mlod_tag_parse e t (mlod_tag_bytes t) (mlod_tag_fields t)"
proof -
  from assms have nm: "0 \<notin> set (tag_name t)" and len: "length (tag_data t) = unat (data_length t)"
    by (simp_all add: wf_tag_def)
  have "decodes mlod_tag_parse e t
      ([active t] @ arma_string_bytes (tag_name t) @ u32_bytes (data_length t) @ [] @
       concat (map (\<lambda>b. [b]) (tag_data t)) @ [])
      ([(''failed to read mlod_tag.active'', 1)] @ arma_string_fields (tag_name t) @
       [(''failed to read mlod_tag.data_length'', 4)] @ [] @
       concat (map (\<lambda>b. [(''failed to read mlod_tag.data[m]'', 1)]) (tag_data t)) @ [])"
    unfolding mlod_tag_parse_def
    apply (rule decodes_chain_Cons, rule decodes_read_field, simp, simp)
    apply (rule decodes_chain_Cons, rule decodes_in_field, rule decodes_arma_string_parse [OF nm])
    apply (rule decodes_chain_Cons, rule decodes_read_field, simp, simp)
    apply (rule decodes_chain_Cons, rule decodes_assign)
    apply (rule decodes_chain_Cons, rule decodes_in_field, rule decodes_for_each)
     apply (rule list_all2_same_length, simp add: len, rule decodes_data_byte)
    apply (rule decodes_cong [OF decodes_chain_Nil]; simp)
    done
  then show ?thesis
    by (simp add: mlod_tag_bytes_def mlod_tag_fields_def concat_map_single concat_singletons map_replicate_const)
qed

subsection \<open>The reads of a LOD and of a document\<close>

definition mlod_lod_fields :: "mlod_lod \<Rightarrow> field_map" where
  "mlod_lod_fields l =
     [(''failed to read mlod_lod.signature'', 4), (''failed to read mlod_lod.minor_version'', 4),
      (''failed to read mlod_lod.major_version'', 4), (''failed to read mlod_lod.num_points'', 4),
      (''failed to read mlod_lod.num_face_normals'', 4), (''failed to read mlod_lod.num_faces'', 4),
      (''failed to read mlod_lod.flags'', 4)] @
     concat (map (\<lambda>p. mlod_point_fields) (points l)) @
     concat (map (\<lambda>n. vector3_fields) (normals l)) @
     concat (map mlod_face_fields (faces l)) @
     [(''failed to read mlod_lod.tag_sig'', 4)] @
     concat (map mlod_tag_fields (tags l)) @
     [(''failed to read mlod_lod.resolution'', 4)]"

definition p3d_header_fields :: field_map where
  "p3d_header_fields =
     [(''failed to read p3d_header.signature'', 4), (''failed to read p3d_header.version'', 4),
      (''failed to read p3d_header.lod_count'', 4)]"

definition mlod_p3d_fields :: "mlod_p3d \<Rightarrow> field_map" where
  "mlod_p3d_fields d = p3d_header_fields @ concat (map mlod_lod_fields (lods d))"

text \<open>
  A tag list as the tag loop leaves it: not empty, every tag well formed, the last
  one named "#EndOfFile#" and none before it.
\<close>

definition wf_tags :: "mlod_tag list \<Rightarrow> bool" where
  "wf_tags ts \<longleftrightarrow>
     ts \<noteq> [] \<and> list_all wf_tag ts \<and> tag_name (last ts) = str ''#EndOfFile#'' \<and>
     list_all (\<lambda>t. tag_name t \<noteq> str ''#EndOfFile#'') (butlast ts)"

lemma tag_parse_fails:
  assumes "wf_tag t" and "k < length (mlod_tag_bytes t)" and "rest r = take k (mlod_tag_bytes t)"
  shows "fst (tags_loop r out) = Some (field_at (mlod_tag_fields t) k)"
proof -
  from decodes_failure [OF decodes_mlod_tag_parse [OF assms(1)] assms(2,3)]
  have "fst (mlod_tag_parse r mlod_tag_zero) = Some (field_at (mlod_tag_fields t) k)" .
  then obtain r1 t1 where "mlod_tag_parse r mlod_tag_zero = (Some (field_at (mlod_tag_fields t) k), r1, t1)"
    by (cases "mlod_tag_parse r mlod_tag_zero") auto
  then show ?thesis by (simp add: tags_loop_fail)
qed

lemma decodes_tags_loop:
  "wf_tags ts \<Longrightarrow>
   decodes tags_loop out (fold store_tag ts out)
     (concat (map mlod_tag_bytes ts)) (concat (map mlod_tag_fields ts))"
proof (induction ts arbitrary: out)
  case Nil
  then show ?case by (simp add: wf_tags_def)
next
  case (Cons t ts)
  from Cons.prems have wt: "wf_tag t" by (simp add: wf_tags_def)
  note dt = decodes_mlod_tag_parse [OF wt, of mlod_tag_zero]
  let ?b1 = "mlod_tag_bytes t" and ?F1 = "mlod_tag_fields t"
  show ?case
  proof (cases "ts = []")
    case True
    with Cons.prems have eof: "tag_name t = str ''#EndOfFile#''" by (simp add: wf_tags_def)
    show ?thesis
    proof (rule decodesI)
      show "field_sizes (concat (map mlod_tag_fields (t # ts))) = length (concat (map mlod_tag_bytes (t # ts)))"
        using decodes_size [OF dt] True by simp
    next
      fix r ys assume "rest r = concat (map mlod_tag_bytes (t # ts)) @ ys"
      then have "rest r = ?b1 @ ys" using True by simp
      from decodes_success [OF dt this] eof True
      show "tags_loop r out =
          (None, r\<lparr>current_offset := current_offset r + length (concat (map mlod_tag_bytes (t # ts)))\<rparr>,
           fold store_tag (t # ts) out)"
        by (simp add: tags_loop_last)
    next
      fix r k assume "k < length (concat (map mlod_tag_bytes (t # ts)))"
        "rest r = take k (concat (map mlod_tag_bytes (t # ts)))"
      then have "k < length ?b1" "rest r = take k ?b1" using True by simp_all
      from tag_parse_fails [OF wt this] True
      show "fst (tags_loop r out) = Some (field_at (concat (map mlod_tag_fields (t # ts))) k)"
        by simp
    qed
  next
    case False
    with Cons.prems have more: "tag_name t \<noteq> str ''#EndOfFile#''" and wts: "wf_tags ts"
      by (simp_all add: wf_tags_def)
    note q = Cons.IH [OF wts, of "store_tag t out"]
    let ?b2 = "concat (map mlod_tag_bytes ts)" and ?F2 = "concat (map mlod_tag_fields ts)"
    show ?thesis
    proof (rule decodesI)
      show "field_sizes (concat (map mlod_tag_fields (t # ts))) = length (concat (map mlod_tag_bytes (t # ts)))"
        using decodes_size [OF dt] decodes_size [OF q] by simp
    next
      fix r ys assume "rest r = concat (map mlod_tag_bytes (t # ts)) @ ys"
      then have r': "rest r = ?b1 @ (?b2 @ ys)" by simp
      let ?r1 = "r\<lparr>current_offset := current_offset r + length ?b1\<rparr>"
      have 1: "mlod_tag_parse r mlod_tag_zero = (None, ?r1, t)" by (rule decodes_success [OF dt r'])
      have "rest ?r1 = ?b2 @ ys" by (rule rest_advance [OF r'])
      from decodes_success [OF q this] tags_loop_more [OF 1 more, of out]
      show "tags_loop r out =
          (None, r\<lparr>current_offset := current_offset r + length (concat (map mlod_tag_bytes (t # ts)))\<rparr>,
           fold store_tag (t # ts) out)"
        by (simp add: add.assoc)
    next
      fix r k assume k: "k < length (concat (map mlod_tag_bytes (t # ts)))"
        and r: "rest r = take k (concat (map mlod_tag_bytes (t # ts)))"
      show "fst (tags_loop r out) = Some (field_at (concat (map mlod_tag_fields (t # ts))) k)"
      proof (cases "k < length ?b1")
        case True
        with r have "rest r = take k ?b1" by simp
        from tag_parse_fails [OF wt True this] True decodes_size [OF dt]
        show ?thesis by (simp add: field_at_append)
      next
        case False
        let ?r1 = "r\<lparr>current_offset := current_offset r + length ?b1\<rparr>"
        from False r have r': "rest r = ?b1 @ take (k - length ?b1) ?b2" by simp
        have 1: "mlod_tag_parse r mlod_tag_zero = (None, ?r1, t)" by (rule decodes_success [OF dt r'])
        have r1: "rest ?r1 = take (k - length ?b1) ?b2" by (rule rest_advance [OF r'])
        have "k - length ?b1 < length ?b2" using k False by simp
        from decodes_failure [OF q this r1] tags_loop_more [OF 1 more, of out] False decodes_size [OF dt]
        show ?thesis by (simp add: field_at_append)
      qed
    qed
  qed
qed

text \<open>
  The two projections as the tag loop computes them from the tags of a fresh LOD.
\<close>

definition project_tags :: "mlod_lod \<Rightarrow> mlod_lod" where
  "project_tags l =
     l\<lparr>property_tags := map property_tag_of (filter is_property (tags l)),
       lod_mass := (if filter is_mass (tags l) = [] then mass_tag_default
                    else mass_tag_of (last (filter is_mass (tags l))) (num_points l))\<rparr>"

text \<open>
  A LOD whose arrays have the lengths its counts say, with well-formed faces and tags.
  Nothing is asked of a tag's payload but that \<^verbatim>\<open>data_length\<close> is its length.
\<close>

definition wf_lod :: "mlod_lod \<Rightarrow> bool" where
  "wf_lod l \<longleftrightarrow>
     length (points l) = unat (num_points l) \<and>
     length (normals l) = unat (num_face_normals l) \<and>
     length (faces l) = unat (num_faces l) \<and>
     list_all wf_face (faces l) \<and> wf_tags (tags l)"

definition wf_p3d :: "mlod_p3d \<Rightarrow> bool" where
  "wf_p3d d \<longleftrightarrow> length (lods d) = unat (lod_count (header d)) \<and> list_all wf_lod (lods d)"

lemma list_all2_by_length:
  "length es = length vs \<Longrightarrow> (\<And>e v. v \<in> set vs \<Longrightarrow> P e v) \<Longrightarrow> list_all2 P es vs"
  by (simp add: list_all2_conv_all_nth)

lemma decodes_mlod_lod_parse:
  assumes "wf_lod l"
  shows "decodes mlod_lod_parse mlod_lod_default (project_tags l) (mlod_lod_bytes l) (mlod_lod_fields l)"
proof -
  from assms have np: "length (points l) = unat (num_points l)"
    and nn: "length (normals l) = unat (num_face_normals l)"
    and nf: "length (faces l) = unat (num_faces l)"
    and wf: "\<And>f. f \<in> set (faces l) \<Longrightarrow> wf_face f" and wt: "wf_tags (tags l)"
    by (simp_all add: wf_lod_def list_all_iff)
  have "decodes mlod_lod_parse mlod_lod_default (project_tags l)
      (signature_bytes (lod_signature l) @ u32_bytes (minor_version l) @ u32_bytes (major_version l) @
       u32_bytes (num_points l) @ u32_bytes (num_face_normals l) @ u32_bytes (num_faces l) @
       u32_bytes (lod_flags l) @
       [] @ concat (map mlod_point_bytes (points l)) @
       [] @ concat (map vector3_bytes (normals l)) @
       [] @ concat (map mlod_face_bytes (faces l)) @
       signature_bytes (tag_sig l) @ concat (map mlod_tag_bytes (tags l)) @
       u32_bytes (resolution l) @ [])
      ([(''failed to read mlod_lod.signature'', 4)] @ [(''failed to read mlod_lod.minor_version'', 4)] @
       [(''failed to read mlod_lod.major_version'', 4)] @ [(''failed to read mlod_lod.num_points'', 4)] @
       [(''failed to read mlod_lod.num_face_normals'', 4)] @ [(''failed to read mlod_lod.num_faces'', 4)] @
       [(''failed to read mlod_lod.flags'', 4)] @
       [] @ concat (map (\<lambda>p. mlod_point_fields) (points l)) @
       [] @ concat (map (\<lambda>n. vector3_fields) (normals l)) @
       [] @ concat (map mlod_face_fields (faces l)) @
       [(''failed to read mlod_lod.tag_sig'', 4)] @ concat (map mlod_tag_fields (tags l)) @
       [(''failed to read mlod_lod.resolution'', 4)] @ [])"
    unfolding mlod_lod_parse_def
    apply (rule decodes_chain_Cons, rule decodes_read_field, simp, simp)+
    apply (rule decodes_chain_Cons, rule decodes_assign)
    apply (rule decodes_chain_Cons, rule decodes_in_field, rule decodes_for_each)
     apply (rule list_all2_by_length, simp add: np, rule decodes_mlod_point_parse)
    apply (rule decodes_chain_Cons, rule decodes_assign)
    apply (rule decodes_chain_Cons, rule decodes_in_field, rule decodes_for_each)
     apply (rule list_all2_by_length, simp add: nn, rule decodes_vector3_parse)
    apply (rule decodes_chain_Cons, rule decodes_assign)
    apply (rule decodes_chain_Cons, rule decodes_in_field, rule decodes_for_each)
     apply (rule list_all2_by_length, simp add: nf, rule decodes_mlod_face_parse, erule wf)
    apply (rule decodes_chain_Cons, rule decodes_read_field, simp, simp)
    apply (rule decodes_chain_Cons, rule decodes_tags_loop [OF wt])
    apply (rule decodes_chain_Cons, rule decodes_read_field, simp, simp)
    apply (rule decodes_cong [OF decodes_chain_Nil])
      apply (simp add: fold_store_tag mlod_lod_default_def project_tags_def)
     apply simp
    apply simp
    done
  then show ?thesis by (simp add: mlod_lod_bytes_def mlod_lod_fields_def)
qed

lemma mlod_lod_bytes_project_tags [simp]: "mlod_lod_bytes (project_tags l) = mlod_lod_bytes l"
  by (simp add: mlod_lod_bytes_def project_tags_def)

lemma mlod_lod_fields_project_tags [simp]: "mlod_lod_fields (project_tags l) = mlod_lod_fields l"
  by (simp add: mlod_lod_fields_def project_tags_def)

lemma decodes_p3d_header_parse: "decodes p3d_header_parse e h (p3d_header_bytes h) p3d_header_fields"
proof -
  have "decodes p3d_header_parse e h
      (signature_bytes (hdr_signature h) @ u32_bytes (version h) @ u32_bytes (lod_count h) @ [])
      ([(''failed to read p3d_header.signature'', 4)] @ [(''failed to read p3d_header.version'', 4)] @
       [(''failed to read p3d_header.lod_count'', 4)] @ [])"
    unfolding p3d_header_parse_def
    apply (rule decodes_chain_Cons, rule decodes_read_field, simp, simp)+
    apply (rule decodes_cong [OF decodes_chain_Nil]; simp)
    done
  then show ?thesis by (simp add: p3d_header_bytes_def p3d_header_fields_def)
qed

lemma list_all2_replicate_left:
  "length vs = n \<Longrightarrow> (\<And>v. v \<in> set vs \<Longrightarrow> P e v) \<Longrightarrow> list_all2 P (replicate n e) vs"
  by (simp add: list_all2_conv_all_nth)

lemma decodes_mlod_p3d_parse:
  assumes "wf_p3d d"
  shows "decodes mlod_p3d_parse mlod_p3d_default (d\<lparr>lods := map project_tags (lods d)\<rparr>)
           (mlod_p3d_bytes d) (mlod_p3d_fields d)"
proof -
  from assms have n: "length (lods d) = unat (lod_count (header d))"
    and wl: "\<And>l. l \<in> set (lods d) \<Longrightarrow> wf_lod l"
    by (simp_all add: wf_p3d_def list_all_iff)
  have each: "decodes mlod_lod_parse mlod_lod_default v (mlod_lod_bytes v) (mlod_lod_fields v)"
    if "v \<in> set (map project_tags (lods d))" for v
  proof -
    from that obtain l where l: "l \<in> set (lods d)" and v: "v = project_tags l" by auto
    from decodes_mlod_lod_parse [OF wl [OF l]] show ?thesis by (simp add: v)
  qed
  have "decodes mlod_p3d_parse mlod_p3d_default (d\<lparr>lods := map project_tags (lods d)\<rparr>)
      (p3d_header_bytes (header d) @ [] @ concat (map mlod_lod_bytes (map project_tags (lods d))) @ [])
      (p3d_header_fields @ [] @ concat (map mlod_lod_fields (map project_tags (lods d))) @ [])"
    unfolding mlod_p3d_parse_def
    apply (rule decodes_chain_Cons, rule decodes_in_field, rule decodes_p3d_header_parse)
    apply (rule decodes_chain_Cons, rule decodes_assign)
    apply (rule decodes_chain_Cons, rule decodes_in_field, rule decodes_for_each)
     apply (simp add: mlod_p3d_default_def resize_Nil)
     apply (rule list_all2_replicate_left, simp add: n, erule each)
    apply (rule decodes_cong [OF decodes_chain_Nil])
      apply (simp add: mlod_p3d_default_def)
     apply simp
    apply simp
    done
  then show ?thesis by (simp add: mlod_p3d_bytes_def mlod_p3d_fields_def comp_def)
qed

subsection \<open>What a successful parse returns is well formed\<close>

lemma arma_string_parse_no_nul: "arma_string_parse r s = (None, r', s') \<Longrightarrow> 0 \<notin> set s'"
  using arma_string_loop_success [of r "[]" r' s'] by (auto simp: arma_string_parse_def)

lemma mlod_face_parse_wf: "mlod_face_parse r f = (None, r', f') \<Longrightarrow> wf_face f'"
  unfolding mlod_face_parse_def
  apply (elim chain_ConsE chain_NilE)
  apply (clarsimp simp: read_field_None_iff in_field_iff assign_def wf_face_def)
  apply (drule for_each_length)
  apply (drule arma_string_parse_no_nul)+
  apply simp
  done

lemma mlod_tag_parse_wf: "mlod_tag_parse r t = (None, r', t') \<Longrightarrow> wf_tag t'"
  unfolding mlod_tag_parse_def
  apply (elim chain_ConsE chain_NilE)
  apply (clarsimp simp: read_field_None_iff in_field_iff assign_def wf_tag_def)
  apply (drule for_each_length)
  apply (drule arma_string_parse_no_nul)
  apply simp
  done

lemma tags_loop_wf:
  "tags_loop r out = (None, r', out') \<Longrightarrow> \<exists>ts. wf_tags ts \<and> out' = fold store_tag ts out"
proof (induction r out rule: tags_loop_induct)
  case (step r out)
  obtain e1 r1 t where p: "mlod_tag_parse r mlod_tag_zero = (e1, r1, t)"
    by (cases "mlod_tag_parse r mlod_tag_zero")
  have e1: "e1 = None"
  proof (cases e1)
    case (Some m)
    with p step.prems(1) show ?thesis by (simp add: tags_loop_fail)
  qed simp
  have wt: "wf_tag t" using p e1 by (intro mlod_tag_parse_wf) simp
  show ?case
  proof (cases "tag_name t = str ''#EndOfFile#''")
    case True
    with p e1 step.prems(1) have "out' = store_tag t out" by (simp add: tags_loop_last)
    with True wt show ?thesis by (intro exI [of _ "[t]"]) (simp add: wf_tags_def)
  next
    case False
    with p e1 step.prems(1) have rec: "tags_loop r1 (store_tag t out) = (None, r', out')"
      by (simp add: tags_loop_more)
    from step.IH [OF _ False rec] p e1
    obtain ts where ts: "wf_tags ts" "out' = fold store_tag ts (store_tag t out)" by auto
    with False wt show ?thesis by (intro exI [of _ "t # ts"]) (simp add: wf_tags_def)
  qed
qed

lemma for_each_all:
  assumes "\<And>r e r' e'. e \<in> set es \<Longrightarrow> p r e = (None, r', e') \<Longrightarrow> Q e'"
  shows "for_each p r es = (None, r', es') \<Longrightarrow> list_all Q es'"
  using assms
proof (induction es arbitrary: r r' es')
  case Nil
  then show ?case by simp
next
  case (Cons a es)
  obtain e1 r1 a1 where p: "p r a = (e1, r1, a1)" by (cases "p r a")
  obtain e2 r2 es2 where q: "for_each p r1 es = (e2, r2, es2)" by (cases "for_each p r1 es")
  from p q Cons.prems(1) have e1: "e1 = None" and e2: "e2 = None" and es': "es' = a1 # es2"
    by (auto split: option.splits)
  have "Q a1" using Cons.prems(2) [of a r r1 a1] p e1 by simp
  moreover have "list_all Q es2" using q e2 Cons.prems(2) by (intro Cons.IH [of r1 r2]) auto
  ultimately show ?case by (simp add: es')
qed

lemma mlod_lod_parse_wf:
  assumes "mlod_lod_parse r mlod_lod_default = (None, r', l')"
  shows "wf_lod l' \<and> project_tags l' = l'"
  using assms unfolding mlod_lod_parse_def
  apply (elim chain_ConsE chain_NilE)
  apply (drule tags_loop_wf)
  apply (clarsimp simp: read_field_None_iff in_field_iff assign_def fold_store_tag
      wf_lod_def project_tags_def mlod_lod_default_def)
  apply (frule for_each_length [where p = mlod_point_parse])
  apply (frule for_each_length [where p = vector3_parse])
  apply (frule for_each_length [where p = mlod_face_parse])
  apply (drule for_each_all [where p = mlod_face_parse and Q = wf_face, rotated])
   apply (erule mlod_face_parse_wf)
  apply simp
  done

lemma mlod_p3d_parse_wf:
  assumes "mlod_p3d_parse r mlod_p3d_default = (None, r', d')"
  shows "wf_p3d d' \<and> d'\<lparr>lods := map project_tags (lods d')\<rparr> = d'"
  using assms unfolding mlod_p3d_parse_def
  apply (elim chain_ConsE chain_NilE)
  apply (clarsimp simp: in_field_iff assign_def resize_Nil mlod_p3d_default_def wf_p3d_def)
  apply (frule for_each_length)
  apply (drule for_each_all [where Q = "\<lambda>l. wf_lod l \<and> project_tags l = l", rotated])
   apply (simp add: mlod_lod_parse_wf)
  apply (simp add: list_all_iff map_idI)
  done

section \<open>Every failure is a layout cut short\<close>

text \<open>
  Parser \<open>p\<close> covers every input: whatever object it starts on and wherever the reader
  stands, there is a layout that \<open>p\<close> decodes and that either lies at the reader's
  position, so that \<open>p\<close> succeeds, or goes on where the buffer ends, so that \<open>p\<close> fails
  in the read the buffer ends in.
\<close>

definition covers :: "'a parser \<Rightarrow> bool" where
  "covers p \<longleftrightarrow>
     (\<forall>x r. \<exists>v bs F. decodes p x v bs F \<and>
        ((\<exists>ys. rest r = bs @ ys) \<or> (\<exists>zs. zs \<noteq> [] \<and> bs = rest r @ zs)))"

lemma coversE:
  assumes "covers p"
  obtains v bs F where "decodes p x v bs F"
    and "(\<exists>ys. rest r = bs @ ys) \<or> (\<exists>zs. zs \<noteq> [] \<and> bs = rest r @ zs)"
  using assms unfolding covers_def by blast

lemma covers_read_field:
  assumes "0 < n"
  shows "covers (read_field n msg st)"
  unfolding covers_def
proof (intro allI)
  fix x :: 'a and r
  show "\<exists>v bs F. decodes (read_field n msg st) x v bs F \<and>
      ((\<exists>ys. rest r = bs @ ys) \<or> (\<exists>zs. zs \<noteq> [] \<and> bs = rest r @ zs))"
  proof (cases "n \<le> length (rest r)")
    case True
    let ?bs = "take n (rest r)"
    from True have "length ?bs = n" by simp
    from decodes_read_field [OF this assms, of msg st x]
    have "decodes (read_field n msg st) x (st ?bs x) ?bs [(msg, n)]" .
    moreover have "rest r = ?bs @ drop n (rest r)" by simp
    ultimately show ?thesis by blast
  next
    case False
    let ?zs = "replicate (n - length (rest r)) (0::byte)"
    let ?bs = "rest r @ ?zs"
    from False have "length ?bs = n" by simp
    from decodes_read_field [OF this assms, of msg st x]
    have "decodes (read_field n msg st) x (st ?bs x) ?bs [(msg, n)]" .
    moreover from False have "?zs \<noteq> []" by simp
    ultimately show ?thesis by blast
  qed
qed

lemma covers_in_field: "covers p \<Longrightarrow> covers (in_field g s p)"
  unfolding covers_def by (meson decodes_in_field)

lemma covers_assign: "covers (assign f)"
  unfolding covers_def using decodes_assign by fastforce

lemma covers_chain_Nil: "covers (chain [])"
  unfolding covers_def using decodes_chain_Nil by fastforce

lemma covers_seq:
  assumes 1: "decodes p x v1 b1 F1"
    and c1: "(\<exists>ys. rest r = b1 @ ys) \<or> (\<exists>zs. zs \<noteq> [] \<and> b1 = rest r @ zs)"
    and 2: "\<And>r1. \<exists>v2 b2 F2. decodes q v1 v2 b2 F2 \<and>
              ((\<exists>ys. rest r1 = b2 @ ys) \<or> (\<exists>zs. zs \<noteq> [] \<and> b2 = rest r1 @ zs))"
  shows "\<exists>v2 b2 F2. decodes q v1 v2 b2 F2 \<and>
           ((\<exists>ys. rest r = (b1 @ b2) @ ys) \<or> (\<exists>zs. zs \<noteq> [] \<and> b1 @ b2 = rest r @ zs))"
  using c1
proof
  assume "\<exists>ys. rest r = b1 @ ys"
  then obtain ys where ys: "rest r = b1 @ ys" ..
  let ?r1 = "r\<lparr>current_offset := current_offset r + length b1\<rparr>"
  have r1: "rest ?r1 = ys" by (rule rest_advance [OF ys])
  from 2 [of ?r1] obtain v2 b2 F2 where d: "decodes q v1 v2 b2 F2"
    and c: "(\<exists>ys'. ys = b2 @ ys') \<or> (\<exists>zs. zs \<noteq> [] \<and> b2 = ys @ zs)"
    unfolding r1 by blast
  from c ys have "(\<exists>ys. rest r = (b1 @ b2) @ ys) \<or> (\<exists>zs. zs \<noteq> [] \<and> b1 @ b2 = rest r @ zs)"
    by auto
  with d show ?thesis by blast
next
  assume "\<exists>zs. zs \<noteq> [] \<and> b1 = rest r @ zs"
  then obtain zs where zs: "zs \<noteq> []" "b1 = rest r @ zs" by blast
  from 2 [of r] obtain v2 b2 F2 where d: "decodes q v1 v2 b2 F2" by blast
  from zs have "zs @ b2 \<noteq> []" "b1 @ b2 = rest r @ (zs @ b2)" by simp_all
  with d show ?thesis by blast
qed

lemma covers_chain_Cons:
  assumes "covers p" and "covers (chain ps)"
  shows "covers (chain (p # ps))"
  unfolding covers_def
proof (intro allI)
  fix x :: 'a and r
  from assms(1) obtain v1 b1 F1 where 1: "decodes p x v1 b1 F1"
    and c1: "(\<exists>ys. rest r = b1 @ ys) \<or> (\<exists>zs. zs \<noteq> [] \<and> b1 = rest r @ zs)"
    by (rule coversE)
  have "\<exists>v2 b2 F2. decodes (chain ps) v1 v2 b2 F2 \<and>
           ((\<exists>ys. rest r = (b1 @ b2) @ ys) \<or> (\<exists>zs. zs \<noteq> [] \<and> b1 @ b2 = rest r @ zs))"
    using 1 c1
  proof (rule covers_seq)
    fix r1
    from assms(2) show "\<exists>v2 b2 F2. decodes (chain ps) v1 v2 b2 F2 \<and>
        ((\<exists>ys. rest r1 = b2 @ ys) \<or> (\<exists>zs. zs \<noteq> [] \<and> b2 = rest r1 @ zs))"
      unfolding covers_def by blast
  qed
  then obtain v2 b2 F2 where "decodes (chain ps) v1 v2 b2 F2"
    and c: "(\<exists>ys. rest r = (b1 @ b2) @ ys) \<or> (\<exists>zs. zs \<noteq> [] \<and> b1 @ b2 = rest r @ zs)"
    by blast
  with 1 have "decodes (chain (p # ps)) x v2 (b1 @ b2) (F1 @ F2)" by (intro decodes_chain_Cons)
  with c show "\<exists>v bs F. decodes (chain (p # ps)) x v bs F \<and>
      ((\<exists>ys. rest r = bs @ ys) \<or> (\<exists>zs. zs \<noteq> [] \<and> bs = rest r @ zs))"
    by blast
qed

lemma covers_for_each:
  assumes "covers p"
  shows "covers (for_each p)"
  unfolding covers_def
proof (intro allI)
  fix es :: "'a list" and r
  show "\<exists>v bs F. decodes (for_each p) es v bs F \<and>
      ((\<exists>ys. rest r = bs @ ys) \<or> (\<exists>zs. zs \<noteq> [] \<and> bs = rest r @ zs))"
  proof (induction es arbitrary: r)
    case Nil
    have "rest r = [] @ rest r" by simp
    with decodes_for_each_Nil [of p] show ?case by blast
  next
    case (Cons e es)
    from assms obtain v1 b1 F1 where 1: "decodes p e v1 b1 F1"
      and c1: "(\<exists>ys. rest r = b1 @ ys) \<or> (\<exists>zs. zs \<noteq> [] \<and> b1 = rest r @ zs)"
      by (rule coversE)
    obtain vs b2 F2 where 2: "decodes (for_each p) es vs b2 F2"
      and c: "(\<exists>ys. rest r = (b1 @ b2) @ ys) \<or> (\<exists>zs. zs \<noteq> [] \<and> b1 @ b2 = rest r @ zs)"
    proof (cases "\<exists>ys. rest r = b1 @ ys")
      case True
      then obtain ys where ys: "rest r = b1 @ ys" ..
      let ?r1 = "r\<lparr>current_offset := current_offset r + length b1\<rparr>"
      have r1: "rest ?r1 = ys" by (rule rest_advance [OF ys])
      from Cons.IH [of ?r1] obtain vs b2 F2 where d: "decodes (for_each p) es vs b2 F2"
        and c: "(\<exists>ys'. ys = b2 @ ys') \<or> (\<exists>zs. zs \<noteq> [] \<and> b2 = ys @ zs)"
        unfolding r1 by blast
      from c ys have "(\<exists>ys. rest r = (b1 @ b2) @ ys) \<or> (\<exists>zs. zs \<noteq> [] \<and> b1 @ b2 = rest r @ zs)"
        by auto
      with d that show ?thesis by blast
    next
      case False
      with c1 obtain zs where zs: "zs \<noteq> []" "b1 = rest r @ zs" by blast
      from Cons.IH [of r] obtain vs b2 F2 where d: "decodes (for_each p) es vs b2 F2" by blast
      from zs have "zs @ b2 \<noteq> []" "b1 @ b2 = rest r @ (zs @ b2)" by simp_all
      with d that show ?thesis by blast
    qed
    from decodes_for_each_Cons [OF 1 2] c show ?case by blast
  qed
qed

lemma covers_arma_string_parse: "covers arma_string_parse"
  unfolding covers_def
proof (intro allI)
  fix x :: arma_string and r
  show "\<exists>v bs F. decodes arma_string_parse x v bs F \<and>
      ((\<exists>ys. rest r = bs @ ys) \<or> (\<exists>zs. zs \<noteq> [] \<and> bs = rest r @ zs))"
  proof (cases "0 \<in> set (rest r)")
    case True
    let ?s = "takeWhile (\<lambda>b. b \<noteq> 0) (rest r)"
    have nz: "0 \<notin> set ?s" by (auto dest: set_takeWhileD)
    from True have "dropWhile (\<lambda>b. b \<noteq> 0) (rest r) \<noteq> []" by (simp add: dropWhile_eq_Nil_conv)
    then obtain ys where ys: "dropWhile (\<lambda>b. b \<noteq> 0) (rest r) = 0 # ys"
      using hd_dropWhile [of "\<lambda>b. b \<noteq> 0" "rest r"]
      by (cases "dropWhile (\<lambda>b. b \<noteq> 0) (rest r)") auto
    have "rest r = ?s @ dropWhile (\<lambda>b. b \<noteq> 0) (rest r)" by simp
    then have "rest r = arma_string_bytes ?s @ ys" by (simp add: ys arma_string_bytes_def)
    with decodes_arma_string_parse [OF nz, of x] show ?thesis by blast
  next
    case False
    have "arma_string_bytes (rest r) = rest r @ [0]" by (simp add: arma_string_bytes_def)
    with decodes_arma_string_parse [OF False, of x] show ?thesis by blast
  qed
qed

lemmas covers_intros =
  covers_chain_Cons covers_chain_Nil covers_read_field covers_in_field covers_assign
  covers_for_each covers_arma_string_parse

lemma covers_vector3_parse: "covers vector3_parse"
  unfolding vector3_parse_def by (intro covers_intros) simp_all

lemma covers_mlod_point_parse: "covers mlod_point_parse"
  unfolding mlod_point_parse_def by (intro covers_intros covers_vector3_parse) simp_all

lemma covers_mlod_face_parse: "covers mlod_face_parse"
  unfolding mlod_face_parse_def by (intro covers_intros) simp_all

lemma covers_mlod_tag_parse: "covers mlod_tag_parse"
  unfolding mlod_tag_parse_def by (intro covers_intros) simp_all

lemma covers_p3d_header_parse: "covers p3d_header_parse"
  unfolding p3d_header_parse_def by (intro covers_intros) simp_all

text \<open>A layout that \<^verbatim>\<open>mlod_tag::parse\<close> decodes is the layout of a well-formed tag.\<close>

lemma decodes_mlod_tag_layout:
  assumes "decodes mlod_tag_parse x t bs F"
  shows "wf_tag t \<and> bs = mlod_tag_bytes t"
proof -
  let ?r = "binary_reader_init bs"
  let ?r' = "?r\<lparr>current_offset := current_offset ?r + length bs\<rparr>"
  have "rest ?r = bs @ []" by simp
  from decodes_success [OF assms this] have p: "mlod_tag_parse ?r x = (None, ?r', t)" .
  have "rest ?r' = []" by (simp add: rest_def binary_reader_init_def)
  with mlod_tag_parse_consumes [OF p] mlod_tag_parse_wf [OF p] show ?thesis by simp
qed

lemma tags_loop_covers:
  "\<exists>ts. wf_tags ts \<and>
     ((\<exists>ys. rest r = concat (map mlod_tag_bytes ts) @ ys) \<or>
      (\<exists>zs. zs \<noteq> [] \<and> concat (map mlod_tag_bytes ts) = rest r @ zs))"
proof (induction "length (rest r)" arbitrary: r rule: less_induct)
  case less
  from covers_mlod_tag_parse obtain t bs F where d: "decodes mlod_tag_parse mlod_tag_zero t bs F"
    and c: "(\<exists>ys. rest r = bs @ ys) \<or> (\<exists>zs. zs \<noteq> [] \<and> bs = rest r @ zs)"
    by (rule coversE)
  from decodes_mlod_tag_layout [OF d] have wt: "wf_tag t" and bs: "bs = mlod_tag_bytes t" by simp_all
  have pos: "bs \<noteq> []" by (simp add: bs mlod_tag_bytes_def)
  have eof: "wf_tag end_tag" "tag_name end_tag = str ''#EndOfFile#''"
    if "end_tag = \<lparr>active = 1, tag_name = str ''#EndOfFile#'', data_length = 0, tag_data = []\<rparr>"
    for end_tag
    using that by (simp_all add: wf_tag_def str_def)
  show ?case
  proof (cases "tag_name t = str ''#EndOfFile#''")
    case True
    with wt have "wf_tags [t]" by (simp add: wf_tags_def)
    with c bs show ?thesis by (intro exI [of _ "[t]"]) simp
  next
    case False
    from c show ?thesis
    proof
      assume "\<exists>ys. rest r = bs @ ys"
      then obtain ys where ys: "rest r = bs @ ys" ..
      let ?r1 = "r\<lparr>current_offset := current_offset r + length bs\<rparr>"
      have r1: "rest ?r1 = ys" by (rule rest_advance [OF ys])
      with ys pos have "length (rest ?r1) < length (rest r)" by simp
      from less [OF this] obtain ts where ts: "wf_tags ts"
        and c': "(\<exists>ys'. ys = concat (map mlod_tag_bytes ts) @ ys') \<or>
                 (\<exists>zs. zs \<noteq> [] \<and> concat (map mlod_tag_bytes ts) = ys @ zs)"
        unfolding r1 by blast
      from ts wt False have "wf_tags (t # ts)" by (simp add: wf_tags_def)
      moreover from c' ys bs have
        "(\<exists>ys. rest r = concat (map mlod_tag_bytes (t # ts)) @ ys) \<or>
         (\<exists>zs. zs \<noteq> [] \<and> concat (map mlod_tag_bytes (t # ts)) = rest r @ zs)"
        by auto
      ultimately show ?thesis by blast
    next
      assume "\<exists>zs. zs \<noteq> [] \<and> bs = rest r @ zs"
      then obtain zs where zs: "zs \<noteq> []" "bs = rest r @ zs" by blast
      define end_tag where
        "end_tag = \<lparr>active = 1, tag_name = str ''#EndOfFile#'', data_length = 0, tag_data = []\<rparr>"
      from eof [OF end_tag_def] wt False have "wf_tags [t, end_tag]" by (simp add: wf_tags_def)
      moreover from zs bs have "zs @ mlod_tag_bytes end_tag \<noteq> []"
        "concat (map mlod_tag_bytes [t, end_tag]) = rest r @ (zs @ mlod_tag_bytes end_tag)"
        by simp_all
      ultimately show ?thesis by blast
    qed
  qed
qed

lemma covers_tags_loop: "covers tags_loop"
  unfolding covers_def
proof (intro allI)
  fix out r
  from tags_loop_covers [of r] obtain ts where ts: "wf_tags ts"
    and c: "(\<exists>ys. rest r = concat (map mlod_tag_bytes ts) @ ys) \<or>
            (\<exists>zs. zs \<noteq> [] \<and> concat (map mlod_tag_bytes ts) = rest r @ zs)"
    by blast
  from decodes_tags_loop [OF ts, of out] c
  show "\<exists>v bs F. decodes tags_loop out v bs F \<and>
      ((\<exists>ys. rest r = bs @ ys) \<or> (\<exists>zs. zs \<noteq> [] \<and> bs = rest r @ zs))"
    by blast
qed

lemma covers_mlod_lod_parse: "covers mlod_lod_parse"
  unfolding mlod_lod_parse_def
  by (intro covers_intros covers_tags_loop covers_mlod_point_parse covers_vector3_parse
      covers_mlod_face_parse) simp_all

lemma covers_mlod_p3d_parse: "covers mlod_p3d_parse"
  unfolding mlod_p3d_parse_def
  by (intro covers_intros covers_mlod_lod_parse covers_p3d_header_parse)

text \<open>
  So a buffer that does not decode is the encoding of a document that does, cut short;
  and the error is the message of the read that the buffer ends in.
\<close>

lemma decodes_document_layout:
  assumes "decodes mlod_p3d_parse mlod_p3d_default D bs F"
  shows "decode bs = Inr D \<and> bs = encode D \<and> wf_p3d D"
proof -
  let ?r = "binary_reader_init bs"
  let ?r' = "?r\<lparr>current_offset := current_offset ?r + length bs\<rparr>"
  have "rest ?r = bs @ []" by simp
  from decodes_success [OF assms this] have p: "mlod_p3d_parse ?r mlod_p3d_default = (None, ?r', D)" .
  from parse_document_consumes(1,2) [OF p] have "bs = encode D"
    by (simp add: binary_reader_init_def)
  with p mlod_p3d_parse_wf [OF p] show ?thesis by (auto simp: decode_Inr_iff)
qed

lemma decode_wf: "decode B = Inr D \<Longrightarrow> wf_p3d D \<and> D\<lparr>lods := map project_tags (lods D)\<rparr> = D"
  by (auto simp: decode_Inr_iff dest: mlod_p3d_parse_wf)

lemma decode_cut_short:
  assumes "decode (encode D) = Inr D" and "zs \<noteq> []" and "encode D = B @ zs"
  shows "decode B = Inl (field_at (mlod_p3d_fields D) (length B))"
proof -
  from decode_wf [OF assms(1)] have wf: "wf_p3d D" ..
  note d = decodes_mlod_p3d_parse [OF wf]
  have k: "length B < length (mlod_p3d_bytes D)"
    using assms(2,3) by (simp add: encode_layout [symmetric])
  have "rest (binary_reader_init B) = take (length B) (mlod_p3d_bytes D)"
    using assms(3) by (simp add: encode_layout [symmetric])
  from decodes_failure [OF d k this] show ?thesis
    by (cases "mlod_p3d_parse (binary_reader_init B) mlod_p3d_default") (simp add: decode_def)
qed

lemma decode_failure_located:
  assumes "decode B = Inl m"
  shows "\<exists>D zs. decode (encode D) = Inr D \<and> zs \<noteq> [] \<and> encode D = B @ zs \<and>
           m = field_at (mlod_p3d_fields D) (length B)"
proof -
  from covers_mlod_p3d_parse obtain D bs F where d: "decodes mlod_p3d_parse mlod_p3d_default D bs F"
    and c: "(\<exists>ys. rest (binary_reader_init B) = bs @ ys) \<or>
            (\<exists>zs. zs \<noteq> [] \<and> bs = rest (binary_reader_init B) @ zs)"
    by (rule coversE)
  from decodes_document_layout [OF d] have dec: "decode (encode D) = Inr D" and bs: "bs = encode D"
    by auto
  have "\<not> (\<exists>ys. rest (binary_reader_init B) = bs @ ys)"
  proof
    assume "\<exists>ys. rest (binary_reader_init B) = bs @ ys"
    then obtain ys where "rest (binary_reader_init B) = bs @ ys" ..
    from decodes_success [OF d this] assms show False by (simp add: decode_def)
  qed
  with c obtain zs where zs: "zs \<noteq> []" "encode D = B @ zs" by (auto simp: bs)
  from decode_cut_short [OF dec zs] assms have "m = field_at (mlod_p3d_fields D) (length B)" by simp
  with dec zs show ?thesis by blast
qed

subsection \<open>What a failed parse leaves in the document\<close>


lemma length_p3d_header_bytes [simp]: "length (p3d_header_bytes h) = 12"
  by (simp add: p3d_header_bytes_def)


subsection \<open>A tag as a file holds it\<close>

text \<open>A tag with the name \<open>n\<close> and the payload \<open>p\<close>, its \<^verbatim>\<open>data_length\<close> the size of \<open>p\<close>.\<close>

definition tag_with :: "byte \<Rightarrow> byte list \<Rightarrow> byte list \<Rightarrow> mlod_tag" where
  "tag_with a n p = \<lparr>active = a, tag_name = n, data_length = word_of_nat (length p), tag_data = p\<rparr>"

lemma wf_tag_with: "0 \<notin> set n \<Longrightarrow> length p < 2 ^ 32 \<Longrightarrow> wf_tag (tag_with a n p)"
  by (simp add: wf_tag_def tag_with_def unsigned_of_nat take_bit_nat_eq_self)

lemma wf_lod_add_tag:
  assumes "wf_lod l" and "wf_tag t" and "tag_name t \<noteq> str ''#EndOfFile#''"
  shows "wf_lod (l\<lparr>tags := t # tags l\<rparr>)"
  using assms by (simp add: wf_lod_def wf_tags_def)

lemma wf_lod_parses:
  assumes "wf_lod l" and "rest r = mlod_lod_bytes l @ ys"
  shows "\<exists>r1 l1. mlod_lod_parse r mlod_lod_default = (None, r1, l1) \<and> rest r1 = ys \<and>
           l1 = project_tags l"
  using decodes_success [OF decodes_mlod_lod_parse [OF assms(1)] assms(2)] rest_advance [OF assms(2)]
  by simp

section \<open>Concrete buffers\<close>

subsection \<open>Scenario A\<close>

definition end_of_file_tag :: mlod_tag where
  "end_of_file_tag = \<lparr>active = 1, tag_name = str ''#EndOfFile#'', data_length = 0, tag_data = []\<rparr>"

definition scenario_A_lod :: mlod_lod where
  "scenario_A_lod =
     \<lparr>lod_signature = (0x50, 0x33, 0x44, 0x4D), minor_version = 28, major_version = 256,
      num_points = 1, num_face_normals = 0, num_faces = 0, lod_flags = 0,
      points = [\<lparr>pos = \<lparr>vec_x = 0, vec_y = 0, vec_z = 0\<rparr>, point_flags = 0\<rparr>],
      normals = [], faces = [],
      tag_sig = (0x53, 0x50, 0x33, 0x58), tags = [end_of_file_tag],
      resolution = 0x3F800000, property_tags = [], lod_mass = mass_tag_default\<rparr>"

definition scenario_A_doc :: mlod_p3d where
  "scenario_A_doc =
     \<lparr>header = \<lparr>hdr_signature = (0x4D, 0x4C, 0x4F, 0x44), version = 257, lod_count = 1\<rparr>,
      lods = [scenario_A_lod]\<rparr>"

definition scenario_A_lod_bytes :: "byte list" where
  "scenario_A_lod_bytes =
     [0x50, 0x33, 0x44, 0x4D,  28, 0, 0, 0,  0, 1, 0, 0,
      1, 0, 0, 0,  0, 0, 0, 0,  0, 0, 0, 0,  0, 0, 0, 0,
      0, 0, 0, 0,  0, 0, 0, 0,  0, 0, 0, 0,  0, 0, 0, 0,
      0x53, 0x50, 0x33, 0x58,
      1,  0x23, 0x45, 0x6E, 0x64, 0x4F, 0x66, 0x46, 0x69, 0x6C, 0x65, 0x23, 0,  0, 0, 0, 0,
      0, 0, 0x80, 0x3F]"

definition scenario_A :: "byte list" where
  "scenario_A = [0x4D, 0x4C, 0x4F, 0x44,  1, 1, 0, 0,  1, 0, 0, 0] @ scenario_A_lod_bytes"

lemma decode_scenario_A: "decode scenario_A = Inr scenario_A_doc"
  by code_simp

lemma length_encode_scenario_A: "length (encode scenario_A_doc) = 81" "length scenario_A = 81"
  by code_simp+

text \<open>A face of type 3 (a triangle): four zeroed vertex descriptors, no flags, two empty names.\<close>

definition triangle_face_bytes :: "byte list" where
  "triangle_face_bytes = u32_bytes 3 @ replicate 64 0 @ u32_bytes 0 @ [0] @ [0]"

subsection \<open>One LOD from a buffer of its own\<close>

text \<open>
  A LOD parsed from the start of a buffer into a fresh \<^verbatim>\<open>mlod_lod\<close>, as \<^verbatim>\<open>mlod_p3d::parse\<close>
  does for each element of \<^verbatim>\<open>lods\<close>: the error, and the LOD as the parse left it.
\<close>

definition lod_error :: "byte list \<Rightarrow> mlod_error option" where
  "lod_error bytes = fst (mlod_lod_parse (binary_reader_init bytes) mlod_lod_default)"

definition lod_of :: "byte list \<Rightarrow> mlod_lod" where
  "lod_of bytes = snd (snd (mlod_lod_parse (binary_reader_init bytes) mlod_lod_default))"

lemma lod_parse_cases:
  assumes "lod_error bytes = None"
  obtains r' where "mlod_lod_parse (binary_reader_init bytes) mlod_lod_default = (None, r', lod_of bytes)"
  using assms unfolding lod_error_def lod_of_def
  by (cases "mlod_lod_parse (binary_reader_init bytes) mlod_lod_default") auto

text \<open>A LOD without geometry: the seven scalars, then \<open>tag_bytes\<close>, then the resolution 1.0.\<close>

definition lod_with_tags :: "32 word \<Rightarrow> byte list \<Rightarrow> byte list" where
  "lod_with_tags n tag_bytes =
     str ''P3DM'' @ u32_bytes 28 @ u32_bytes 256 @ u32_bytes n @ u32_bytes 0 @ u32_bytes 0 @ u32_bytes 0 @
     replicate (16 * unat n) 0 @
     str ''TAGG'' @ tag_bytes @ mlod_tag_bytes end_of_file_tag @ u32_bytes 0x3F800000"

definition short_property_tag :: mlod_tag where
  "short_property_tag =
     \<lparr>active = 1, tag_name = str ''#Property#'', data_length = 3, tag_data = str ''abc''\<rparr>"

definition full_property_tag :: mlod_tag where
  "full_property_tag =
     \<lparr>active = 1, tag_name = str ''#Property#'', data_length = 128,
      tag_data = str ''lodnoshadow'' @ replicate 53 0 @ str ''1'' @ replicate 63 0\<rparr>"

text \<open>
  A mass tag with two floats, 1.0 and 2.0: the payload of a LOD with two points, and
  of scenario B, where the LOD has three.
\<close>

definition two_floats_mass_tag :: mlod_tag where
  "two_floats_mass_tag =
     \<lparr>active = 1, tag_name = str ''#Mass#'', data_length = 8,
      tag_data = u32_bytes 0x3F800000 @ u32_bytes 0x40000000\<rparr>"

lemma short_property_lod_parsed:
  "lod_error (lod_with_tags 0 (mlod_tag_bytes short_property_tag)) = None \<and>
   tags (lod_of (lod_with_tags 0 (mlod_tag_bytes short_property_tag))) =
     [short_property_tag, end_of_file_tag] \<and>
   property_tags (lod_of (lod_with_tags 0 (mlod_tag_bytes short_property_tag))) =
     [\<lparr>prop_key = str ''abc'' @ replicate 61 0, prop_value = replicate 64 0\<rparr>]"
  by code_simp

lemma full_property_lod_parsed:
  "lod_error (lod_with_tags 0 (mlod_tag_bytes full_property_tag)) = None \<and>
   tags (lod_of (lod_with_tags 0 (mlod_tag_bytes full_property_tag))) =
     [full_property_tag, end_of_file_tag]"
  by code_simp

lemma scenario_B_lod:
  "lod_error (lod_with_tags 3 (mlod_tag_bytes two_floats_mass_tag)) = None \<and>
   tags (lod_of (lod_with_tags 3 (mlod_tag_bytes two_floats_mass_tag))) = [two_floats_mass_tag, end_of_file_tag] \<and>
   lod_mass (lod_of (lod_with_tags 3 (mlod_tag_bytes two_floats_mass_tag))) =
     \<lparr>mass = [0x3F800000, 0x40000000, 0]\<rparr>"
  by code_simp

lemma matching_mass_lod:
  "lod_error (lod_with_tags 2 (mlod_tag_bytes two_floats_mass_tag)) = None \<and>
   tags (lod_of (lod_with_tags 2 (mlod_tag_bytes two_floats_mass_tag))) = [two_floats_mass_tag, end_of_file_tag] \<and>
   num_points (lod_of (lod_with_tags 2 (mlod_tag_bytes two_floats_mass_tag))) = 2"
  by code_simp

text \<open>
  A LOD with \<open>n\<close> points at the origin and no other geometry, its only tag the
  terminator.
\<close>

definition plain_lod :: "32 word \<Rightarrow> mlod_lod" where
  "plain_lod n =
     \<lparr>lod_signature = (0x50, 0x33, 0x44, 0x4D), minor_version = 28, major_version = 256,
      num_points = n, num_face_normals = 0, num_faces = 0, lod_flags = 0,
      points = replicate (unat n) mlod_point_zero, normals = [], faces = [],
      tag_sig = (0x54, 0x41, 0x47, 0x47), tags = [end_of_file_tag],
      resolution = 0x3F800000, property_tags = [], lod_mass = mass_tag_default\<rparr>"



subsection \<open>Two truncated faces\<close>

text \<open>
  A document with one LOD that announces one face, cut off \<open>n\<close> bytes into the face's
  four vertex descriptors.
\<close>

definition cut_in_vertices :: "nat \<Rightarrow> byte list" where
  "cut_in_vertices n =
     str ''MLOD'' @ u32_bytes 257 @ u32_bytes 1 @
     str ''P3DM'' @ u32_bytes 28 @ u32_bytes 256 @ u32_bytes 0 @ u32_bytes 0 @ u32_bytes 1 @ u32_bytes 0 @
     u32_bytes 4 @ replicate n 0"

section \<open>The claims\<close>

text \<open>
  C1, as the code has it. When \<^verbatim>\<open>mlod_p3d::parse\<close> decodes a buffer \<open>B\<close> without error
  to a document \<open>D\<close>, \<^verbatim>\<open>mlod_p3d::write\<close> of \<open>D\<close> reproduces byte for byte the part of \<open>B\<close>
  that the reader consumed: \<open>B\<close> is the encoding followed by the bytes the reader never
  looked at, and the encoding is all of \<open>B\<close> exactly when nothing is left unread.
\<close>

theorem decode_then_encode:
  assumes "decode B = Inr D"
  shows "B = encode D @ drop (length (encode D)) B \<and>
         (\<exists>r'. mlod_p3d_parse (binary_reader_init B) mlod_p3d_default = (None, r', D) \<and>
               current_offset r' = length (encode D)) \<and>
         (length (encode D) = length B \<longrightarrow> encode D = B)"
proof -
  from assms obtain r' where p: "mlod_p3d_parse (binary_reader_init B) mlod_p3d_default = (None, r', D)"
    by (auto simp: decode_Inr_iff)
  note c = parse_document_consumes [OF p]
  from c(1,2) have eq: "B = encode D @ drop (length (encode D)) B" by simp
  moreover have "encode D = B" if "length (encode D) = length B"
    using eq that by (metis append_Nil2 drop_all order_refl)
  ultimately show ?thesis using p c(2) by blast
qed

theorem decode_then_encode_witness:
  "decode scenario_A = Inr scenario_A_doc \<and> encode scenario_A_doc = scenario_A"
proof -
  have "length (encode scenario_A_doc) = length scenario_A"
    by (simp add: length_encode_scenario_A)
  with decode_then_encode [OF decode_scenario_A] decode_scenario_A show ?thesis by blast
qed

text \<open>
  The claim as stated fails on a buffer with a byte after the document: scenario A
  followed by one more byte decodes, and the encoding is scenario A, not the buffer.
\<close>

theorem roundtrip_counterexample:
  "map_sum id encode (decode (scenario_A @ [0])) = Inr scenario_A \<and> scenario_A \<noteq> scenario_A @ [0]"
  by code_simp




text \<open>
  C3, as the code has it. \<^verbatim>\<open>mlod_lod::parse\<close> builds a \<^verbatim>\<open>property_tag\<close> for every tag named
  "#Property#", whatever the length of its payload: the projections of a decoded LOD are
  those of its "#Property#" tags, one each and in order. The key is the first 64 payload
  bytes and the value the next 64, and bytes the payload does not have are left zero.
  The raw tags are all retained: the LOD's layout, tags included, is what was read.
  And the parse does succeed: the layout of every well-formed LOD parses, with all its
  tags and the projections of its "#Property#" tags; in particular so does the layout
  of a well-formed LOD with one more "#Property#" tag in front, its payload any bytes
  at all (fewer than \<^verbatim>\<open>2^32\<close>, as many as \<^verbatim>\<open>data_length\<close> can say).
\<close>

theorem property_projection:
  "(mlod_lod_parse r mlod_lod_default = (None, r', l) \<longrightarrow>
      property_tags l = map property_tag_of (filter is_property (tags l)) \<and>
      rest r = mlod_lod_bytes l @ rest r' \<and> wf_lod l) \<and>
   (wf_lod l0 \<longrightarrow> rest r0 = mlod_lod_bytes l0 @ ys \<longrightarrow>
      (\<exists>r1 l1. mlod_lod_parse r0 mlod_lod_default = (None, r1, l1) \<and> rest r1 = ys \<and>
         tags l1 = tags l0 \<and>
         property_tags l1 = map property_tag_of (filter is_property (tags l0)))) \<and>
   (wf_lod l0 \<longrightarrow> length p < 2 ^ 32 \<longrightarrow>
    rest r2 = mlod_lod_bytes (l0\<lparr>tags := tag_with a (str ''#Property#'') p # tags l0\<rparr>) @ zs \<longrightarrow>
      (\<exists>r3 l3. mlod_lod_parse r2 mlod_lod_default = (None, r3, l3) \<and> rest r3 = zs \<and>
         tags l3 = tag_with a (str ''#Property#'') p # tags l0 \<and>
         tag_data (hd (tags l3)) = p \<and>
         property_tags l3 =
           property_tag_of (tag_with a (str ''#Property#'') p) #
           map property_tag_of (filter is_property (tags l0)))) \<and>
   (\<forall>t. property_tag_of t =
      \<lparr>prop_key = take 64 (tag_data t) @ replicate (64 - length (tag_data t)) 0,
       prop_value = take 64 (drop 64 (tag_data t)) @
                    replicate (64 - length (drop 64 (tag_data t))) 0\<rparr>)"
proof -
  have A: "property_tags l = map property_tag_of (filter is_property (tags l)) \<and>
      rest r = mlod_lod_bytes l @ rest r' \<and> wf_lod l"
    if p: "mlod_lod_parse r mlod_lod_default = (None, r', l)"
  proof -
    from mlod_lod_parse_success [OF p] obtain ts where
      "tags l = tags mlod_lod_default @ ts"
      "property_tags l = property_tags mlod_lod_default @ map property_tag_of (filter is_property ts)"
      by blast
    then have "property_tags l = map property_tag_of (filter is_property (tags l))"
      by (simp add: mlod_lod_default_def)
    with fresh_lod_parse_consumes [OF p] mlod_lod_parse_wf [OF p] show ?thesis by blast
  qed
  have B: "\<exists>r1 l1. mlod_lod_parse r mlod_lod_default = (None, r1, l1) \<and> rest r1 = ys \<and>
         tags l1 = tags l \<and>
         property_tags l1 = map property_tag_of (filter is_property (tags l))"
    if "wf_lod l" "rest r = mlod_lod_bytes l @ ys" for r l ys
    using wf_lod_parses [OF that] by (auto simp: project_tags_def)
  have C: "\<exists>r3 l3. mlod_lod_parse r2 mlod_lod_default = (None, r3, l3) \<and> rest r3 = zs \<and>
         tags l3 = tag_with a (str ''#Property#'') p # tags l0 \<and>
         tag_data (hd (tags l3)) = p \<and>
         property_tags l3 =
           property_tag_of (tag_with a (str ''#Property#'') p) #
           map property_tag_of (filter is_property (tags l0))"
    if wf: "wf_lod l0" and len: "length p < 2 ^ 32"
      and r2: "rest r2 = mlod_lod_bytes (l0\<lparr>tags := tag_with a (str ''#Property#'') p # tags l0\<rparr>) @ zs"
  proof -
    let ?t = "tag_with a (str ''#Property#'') p"
    have "wf_tag ?t" using len by (intro wf_tag_with) (simp add: str_def)
    moreover have "tag_name ?t \<noteq> str ''#EndOfFile#''" by (simp add: tag_with_def str_def)
    ultimately have "wf_lod (l0\<lparr>tags := ?t # tags l0\<rparr>)" by (intro wf_lod_add_tag wf)
    from B [OF this r2] show ?thesis by (auto simp: is_property_def tag_with_def)
  qed
  from A B C property_tag_of_padded show ?thesis by blast
qed

theorem property_projection_witness:
  "wf_lod scenario_A_lod \<and>
   (\<exists>r1 l1. mlod_lod_parse (binary_reader_init (mlod_lod_bytes scenario_A_lod)) mlod_lod_default =
        (None, r1, l1) \<and>
      tags l1 = [end_of_file_tag] \<and> property_tags l1 = []) \<and>
   (\<exists>r3 l3. mlod_lod_parse
        (binary_reader_init
           (mlod_lod_bytes (scenario_A_lod\<lparr>tags := [tag_with 1 (str ''#Property#'') (str ''abc''), end_of_file_tag]\<rparr>)))
        mlod_lod_default = (None, r3, l3) \<and>
      tags l3 = [tag_with 1 (str ''#Property#'') (str ''abc''), end_of_file_tag] \<and>
      property_tags l3 = [\<lparr>prop_key = str ''abc'' @ replicate 61 0, prop_value = replicate 64 0\<rparr>]) \<and>
   lod_error (lod_with_tags 0 (mlod_tag_bytes full_property_tag)) = None \<and>
   property_tags (lod_of (lod_with_tags 0 (mlod_tag_bytes full_property_tag))) =
     [\<lparr>prop_key = str ''lodnoshadow'' @ replicate 53 0, prop_value = str ''1'' @ replicate 63 0\<rparr>]"
proof -
  let ?l = "lod_of (lod_with_tags 0 (mlod_tag_bytes full_property_tag))"
  let ?t = "tag_with 1 (str ''#Property#'') (str ''abc'')"
  let ?B = "mlod_lod_bytes (scenario_A_lod\<lparr>tags := ?t # tags scenario_A_lod\<rparr>)"
  from full_property_lod_parsed obtain r' where
    p: "mlod_lod_parse (binary_reader_init (lod_with_tags 0 (mlod_tag_bytes full_property_tag)))
       mlod_lod_default = (None, r', ?l)"
    by (auto elim: lod_parse_cases)
  have wf: "wf_lod scenario_A_lod" by code_simp
  have len: "length (str ''abc'') < 2 ^ 32" by (simp add: str_def)
  have r2: "rest (binary_reader_init ?B) = ?B @ []" by simp
  have ts: "tags scenario_A_lod = [end_of_file_tag]" "filter is_property [end_of_file_tag] = []"
    by (simp_all add: scenario_A_lod_def is_property_def end_of_file_tag_def str_def)
  note inst = property_projection [of "binary_reader_init (lod_with_tags 0 (mlod_tag_bytes full_property_tag))"
      r' ?l scenario_A_lod "binary_reader_init (mlod_lod_bytes scenario_A_lod)" "[]"
      "str ''abc''" "binary_reader_init ?B" 1 "[]"]
  have r0: "rest (binary_reader_init (mlod_lod_bytes scenario_A_lod)) = mlod_lod_bytes scenario_A_lod @ []"
    by simp
  from inst wf r0 obtain r1 l1 where
    "mlod_lod_parse (binary_reader_init (mlod_lod_bytes scenario_A_lod)) mlod_lod_default = (None, r1, l1)"
    "tags l1 = tags scenario_A_lod"
    "property_tags l1 = map property_tag_of (filter is_property (tags scenario_A_lod))"
    by blast
  then have plain: "\<exists>r1 l1. mlod_lod_parse (binary_reader_init (mlod_lod_bytes scenario_A_lod)) mlod_lod_default =
        (None, r1, l1) \<and>
      tags l1 = [end_of_file_tag] \<and> property_tags l1 = []"
    unfolding ts by simp
  from inst p full_property_lod_parsed
  have 1: "property_tags ?l = map property_tag_of (filter is_property [full_property_tag, end_of_file_tag])"
    and 2: "property_tag_of full_property_tag =
       \<lparr>prop_key = take 64 (tag_data full_property_tag) @ replicate (64 - length (tag_data full_property_tag)) 0,
        prop_value = take 64 (drop 64 (tag_data full_property_tag)) @
                     replicate (64 - length (drop 64 (tag_data full_property_tag))) 0\<rparr>"
    and 3: "property_tag_of ?t =
       \<lparr>prop_key = take 64 (tag_data ?t) @ replicate (64 - length (tag_data ?t)) 0,
        prop_value = take 64 (drop 64 (tag_data ?t)) @
                     replicate (64 - length (drop 64 (tag_data ?t))) 0\<rparr>"
    by simp_all
  from inst wf len r2 obtain r3 l3 where
    q: "mlod_lod_parse (binary_reader_init ?B) mlod_lod_default = (None, r3, l3)"
      "tags l3 = ?t # tags scenario_A_lod"
      "property_tags l3 = property_tag_of ?t # map property_tag_of (filter is_property (tags scenario_A_lod))"
    by blast
  have np: "\<not> is_property end_of_file_tag"
    by (simp add: is_property_def end_of_file_tag_def str_def)
  have "is_property full_property_tag"
    by (simp add: is_property_def full_property_tag_def str_def)
  moreover note np
  moreover have "take 64 (tag_data full_property_tag) = str ''lodnoshadow'' @ replicate 53 0"
    "drop 64 (tag_data full_property_tag) = str ''1'' @ replicate 63 0"
    "length (tag_data full_property_tag) = 128"
    by (simp_all add: full_property_tag_def str_def)
  ultimately have full: "property_tags ?l =
     [\<lparr>prop_key = str ''lodnoshadow'' @ replicate 53 0, prop_value = str ''1'' @ replicate 63 0\<rparr>]"
    using 1 2 by (simp add: str_def)
  have "tag_data ?t = str ''abc''" by (simp add: tag_with_def)
  with 3 have "property_tag_of ?t = \<lparr>prop_key = str ''abc'' @ replicate 61 0, prop_value = replicate 64 0\<rparr>"
    by (simp add: str_def)
  with q have short: "mlod_lod_parse (binary_reader_init ?B) mlod_lod_default = (None, r3, l3) \<and>
      tags l3 = [?t, end_of_file_tag] \<and>
      property_tags l3 = [\<lparr>prop_key = str ''abc'' @ replicate 61 0, prop_value = replicate 64 0\<rparr>]"
    by (simp add: ts np)
  then have "\<exists>r3 l3. mlod_lod_parse
        (binary_reader_init (mlod_lod_bytes (scenario_A_lod\<lparr>tags := [?t, end_of_file_tag]\<rparr>)))
        mlod_lod_default = (None, r3, l3) \<and>
      tags l3 = [?t, end_of_file_tag] \<and>
      property_tags l3 = [\<lparr>prop_key = str ''abc'' @ replicate 61 0, prop_value = replicate 64 0\<rparr>]"
    unfolding ts by blast
  with wf plain full full_property_lod_parsed show ?thesis by blast
qed

text \<open>
  The claim as stated fails on a "#Property#" tag with a payload of three bytes: the LOD
  decodes, the raw tag is retained, and a property tag is produced all the same, its key
  the three bytes and 61 zeros, its value 64 zeros.
\<close>

theorem property_projection_counterexample:
  "lod_error (lod_with_tags 0 (mlod_tag_bytes short_property_tag)) = None \<and>
   tags (lod_of (lod_with_tags 0 (mlod_tag_bytes short_property_tag))) =
     [short_property_tag, end_of_file_tag] \<and>
   length (tag_data short_property_tag) = 3 \<and>
   property_tags (lod_of (lod_with_tags 0 (mlod_tag_bytes short_property_tag))) =
     [\<lparr>prop_key = str ''abc'' @ replicate 61 0, prop_value = replicate 64 0\<rparr>]"
  using short_property_lod_parsed by (simp add: short_property_tag_def str_def)

text \<open>
  C4, as the code has it. \<^verbatim>\<open>mlod_lod::parse\<close> builds a \<^verbatim>\<open>mass_tag\<close> from every tag named
  "#Mass#", whatever the length of its payload, and keeps the last one; a LOD without
  such a tag keeps the empty default. The projection has one float for each of the
  \<^verbatim>\<open>num_points\<close> points: the little-endian floats of the payload, and 0.0 for each point
  the payload has no four bytes for. The raw tags are all retained.
  And the parse does succeed: the layout of every well-formed LOD parses, with all its
  tags and the projection of its last "#Mass#" tag; in particular so does the layout of
  a well-formed LOD with one more "#Mass#" tag in front, its payload any bytes at all
  (fewer than \<^verbatim>\<open>2^32\<close>), whatever \<^verbatim>\<open>num_points\<close> is.
\<close>

theorem mass_projection:
  "(mlod_lod_parse r mlod_lod_default = (None, r', l) \<longrightarrow>
      lod_mass l =
        (if filter is_mass (tags l) = [] then mass_tag_default
         else mass_tag_of (last (filter is_mass (tags l))) (num_points l)) \<and>
      rest r = mlod_lod_bytes l @ rest r' \<and> wf_lod l) \<and>
   (wf_lod l0 \<longrightarrow> rest r0 = mlod_lod_bytes l0 @ ys \<longrightarrow>
      (\<exists>r1 l1. mlod_lod_parse r0 mlod_lod_default = (None, r1, l1) \<and> rest r1 = ys \<and>
         tags l1 = tags l0 \<and> num_points l1 = num_points l0 \<and>
         lod_mass l1 =
           (if filter is_mass (tags l0) = [] then mass_tag_default
            else mass_tag_of (last (filter is_mass (tags l0))) (num_points l0)))) \<and>
   (wf_lod l0 \<longrightarrow> length p < 2 ^ 32 \<longrightarrow>
    rest r2 = mlod_lod_bytes (l0\<lparr>tags := tag_with a (str ''#Mass#'') p # tags l0\<rparr>) @ zs \<longrightarrow>
      (\<exists>r3 l3. mlod_lod_parse r2 mlod_lod_default = (None, r3, l3) \<and> rest r3 = zs \<and>
         tags l3 = tag_with a (str ''#Mass#'') p # tags l0 \<and>
         tag_data (hd (tags l3)) = p \<and>
         lod_mass l3 =
           mass_tag_of (last (tag_with a (str ''#Mass#'') p # filter is_mass (tags l0))) (num_points l0) \<and>
         length (mass (lod_mass l3)) = unat (num_points l0))) \<and>
   (\<forall>t n. mass (mass_tag_of t n) =
      map (\<lambda>i. if 4 * Suc i \<le> length (tag_data t)
                then u32_of (take 4 (drop (4 * i) (tag_data t))) else 0) [0..<unat n])"
proof -
  have A: "lod_mass l =
        (if filter is_mass (tags l) = [] then mass_tag_default
         else mass_tag_of (last (filter is_mass (tags l))) (num_points l)) \<and>
      rest r = mlod_lod_bytes l @ rest r' \<and> wf_lod l"
    if p: "mlod_lod_parse r mlod_lod_default = (None, r', l)"
  proof -
    from mlod_lod_parse_success [OF p] obtain ts where
      "tags l = tags mlod_lod_default @ ts"
      "lod_mass l = (if filter is_mass ts = [] then lod_mass mlod_lod_default
                     else mass_tag_of (last (filter is_mass ts)) (num_points l))"
      by blast
    then have "lod_mass l =
             (if filter is_mass (tags l) = [] then mass_tag_default
              else mass_tag_of (last (filter is_mass (tags l))) (num_points l))"
      by (simp add: mlod_lod_default_def)
    with fresh_lod_parse_consumes [OF p] mlod_lod_parse_wf [OF p] show ?thesis by blast
  qed
  have B: "\<exists>r1 l1. mlod_lod_parse r mlod_lod_default = (None, r1, l1) \<and> rest r1 = ys \<and>
         tags l1 = tags l \<and> num_points l1 = num_points l \<and>
         lod_mass l1 =
           (if filter is_mass (tags l) = [] then mass_tag_default
            else mass_tag_of (last (filter is_mass (tags l))) (num_points l))"
    if "wf_lod l" "rest r = mlod_lod_bytes l @ ys" for r l ys
    using wf_lod_parses [OF that] by (auto simp: project_tags_def)
  have C: "\<exists>r3 l3. mlod_lod_parse r2 mlod_lod_default = (None, r3, l3) \<and> rest r3 = zs \<and>
         tags l3 = tag_with a (str ''#Mass#'') p # tags l0 \<and>
         tag_data (hd (tags l3)) = p \<and>
         lod_mass l3 =
           mass_tag_of (last (tag_with a (str ''#Mass#'') p # filter is_mass (tags l0))) (num_points l0) \<and>
         length (mass (lod_mass l3)) = unat (num_points l0)"
    if wf: "wf_lod l0" and len: "length p < 2 ^ 32"
      and r2: "rest r2 = mlod_lod_bytes (l0\<lparr>tags := tag_with a (str ''#Mass#'') p # tags l0\<rparr>) @ zs"
  proof -
    let ?t = "tag_with a (str ''#Mass#'') p"
    have "wf_tag ?t" using len by (intro wf_tag_with) (simp add: str_def)
    moreover have "tag_name ?t \<noteq> str ''#EndOfFile#''" by (simp add: tag_with_def str_def)
    ultimately have "wf_lod (l0\<lparr>tags := ?t # tags l0\<rparr>)" by (intro wf_lod_add_tag wf)
    from B [OF this r2] show ?thesis
      by (auto simp: is_mass_def tag_with_def mass_tag_of_padded)
  qed
  from A B C mass_tag_of_padded show ?thesis by blast
qed

theorem mass_projection_witness:
  "wf_lod (plain_lod 3) \<and>
   (\<exists>r1 l1. mlod_lod_parse (binary_reader_init (mlod_lod_bytes (plain_lod 3))) mlod_lod_default =
        (None, r1, l1) \<and>
      tags l1 = [end_of_file_tag] \<and> lod_mass l1 = mass_tag_default) \<and>
   (\<exists>r3 l3. mlod_lod_parse
        (binary_reader_init (mlod_lod_bytes (plain_lod 3\<lparr>tags := [two_floats_mass_tag, end_of_file_tag]\<rparr>)))
        mlod_lod_default = (None, r3, l3) \<and>
      tags l3 = [two_floats_mass_tag, end_of_file_tag] \<and>
      lod_mass l3 = \<lparr>mass = [0x3F800000, 0x40000000, 0]\<rparr>) \<and>
   lod_error (lod_with_tags 2 (mlod_tag_bytes two_floats_mass_tag)) = None \<and>
   lod_mass (lod_of (lod_with_tags 2 (mlod_tag_bytes two_floats_mass_tag))) = mass_tag_of two_floats_mass_tag 2 \<and>
   mass (mass_tag_of two_floats_mass_tag 2) = [0x3F800000, 0x40000000]"
proof -
  let ?l = "lod_of (lod_with_tags 2 (mlod_tag_bytes two_floats_mass_tag))"
  let ?p = "u32_bytes 0x3F800000 @ u32_bytes 0x40000000"
  let ?t = "tag_with 1 (str ''#Mass#'') ?p"
  let ?B = "mlod_lod_bytes (plain_lod 3\<lparr>tags := ?t # tags (plain_lod 3)\<rparr>)"
  from matching_mass_lod obtain r' where
    p: "mlod_lod_parse (binary_reader_init (lod_with_tags 2 (mlod_tag_bytes two_floats_mass_tag)))
       mlod_lod_default = (None, r', ?l)"
    by (auto elim: lod_parse_cases)
  have wf: "wf_lod (plain_lod 3)" by code_simp
  have len: "length ?p < 2 ^ 32" by (simp add: u32_bytes_def)
  have r2: "rest (binary_reader_init ?B) = ?B @ []" by simp
  have t: "?t = two_floats_mass_tag" by (simp add: tag_with_def two_floats_mass_tag_def u32_bytes_def)
  have ts: "tags (plain_lod 3) = [end_of_file_tag]" "filter is_mass [end_of_file_tag] = []"
    "num_points (plain_lod 3) = 3"
    by (simp_all add: plain_lod_def is_mass_def end_of_file_tag_def str_def)
  note inst = mass_projection [of "binary_reader_init (lod_with_tags 2 (mlod_tag_bytes two_floats_mass_tag))"
      r' ?l "plain_lod 3" "binary_reader_init (mlod_lod_bytes (plain_lod 3))" "[]"
      ?p "binary_reader_init ?B" 1 "[]"]
  have r0: "rest (binary_reader_init (mlod_lod_bytes (plain_lod 3))) = mlod_lod_bytes (plain_lod 3) @ []"
    by simp
  from inst wf r0 obtain r1 l1 where
    "mlod_lod_parse (binary_reader_init (mlod_lod_bytes (plain_lod 3))) mlod_lod_default = (None, r1, l1)"
    "tags l1 = tags (plain_lod 3)"
    "lod_mass l1 =
       (if filter is_mass (tags (plain_lod 3)) = [] then mass_tag_default
        else mass_tag_of (last (filter is_mass (tags (plain_lod 3)))) (num_points (plain_lod 3)))"
    by blast
  then have plain: "\<exists>r1 l1. mlod_lod_parse (binary_reader_init (mlod_lod_bytes (plain_lod 3))) mlod_lod_default =
        (None, r1, l1) \<and>
      tags l1 = [end_of_file_tag] \<and> lod_mass l1 = mass_tag_default"
    unfolding ts by simp
  from inst p matching_mass_lod
  have "lod_mass ?l =
      (if filter is_mass [two_floats_mass_tag, end_of_file_tag] = [] then mass_tag_default
       else mass_tag_of (last (filter is_mass [two_floats_mass_tag, end_of_file_tag])) 2)"
    by simp
  moreover have "is_mass two_floats_mass_tag" "\<not> is_mass end_of_file_tag"
    by (simp_all add: is_mass_def two_floats_mass_tag_def end_of_file_tag_def str_def)
  moreover have m2: "mass (mass_tag_of two_floats_mass_tag 2) = [0x3F800000, 0x40000000]"
    by code_simp
  ultimately have match: "lod_mass ?l = mass_tag_of two_floats_mass_tag 2" by simp
  from inst wf len r2 obtain r3 l3 where
    q: "mlod_lod_parse (binary_reader_init ?B) mlod_lod_default = (None, r3, l3)"
      "tags l3 = ?t # tags (plain_lod 3)"
      "lod_mass l3 = mass_tag_of (last (?t # filter is_mass (tags (plain_lod 3)))) (num_points (plain_lod 3))"
    by blast
  have m3: "mass_tag_of two_floats_mass_tag 3 = \<lparr>mass = [0x3F800000, 0x40000000, 0]\<rparr>"
    by code_simp
  from q have "mlod_lod_parse
        (binary_reader_init (mlod_lod_bytes (plain_lod 3\<lparr>tags := [two_floats_mass_tag, end_of_file_tag]\<rparr>)))
        mlod_lod_default = (None, r3, l3) \<and>
      tags l3 = [two_floats_mass_tag, end_of_file_tag] \<and>
      lod_mass l3 = \<lparr>mass = [0x3F800000, 0x40000000, 0]\<rparr>"
    unfolding t ts by (simp add: m3)
  then have "\<exists>r3 l3. mlod_lod_parse
        (binary_reader_init (mlod_lod_bytes (plain_lod 3\<lparr>tags := [two_floats_mass_tag, end_of_file_tag]\<rparr>)))
        mlod_lod_default = (None, r3, l3) \<and>
      tags l3 = [two_floats_mass_tag, end_of_file_tag] \<and>
      lod_mass l3 = \<lparr>mass = [0x3F800000, 0x40000000, 0]\<rparr>"
    by blast
  with wf plain match m2 matching_mass_lod show ?thesis by blast
qed

text \<open>
  The claim as stated fails on scenario B: three points and a "#Mass#" tag with eight
  payload bytes. The LOD decodes and the raw tag is retained, but a mass projection is
  produced: three floats, the two of the payload and 0.0.
\<close>

theorem mass_projection_counterexample:
  "lod_error (lod_with_tags 3 (mlod_tag_bytes two_floats_mass_tag)) = None \<and>
   tags (lod_of (lod_with_tags 3 (mlod_tag_bytes two_floats_mass_tag))) = [two_floats_mass_tag, end_of_file_tag] \<and>
   length (tag_data two_floats_mass_tag) = 8 \<and>
   lod_mass (lod_of (lod_with_tags 3 (mlod_tag_bytes two_floats_mass_tag))) =
     \<lparr>mass = [0x3F800000, 0x40000000, 0]\<rparr> \<and>
   lod_mass (lod_of (lod_with_tags 3 (mlod_tag_bytes two_floats_mass_tag))) \<noteq> mass_tag_default"
  using scenario_B_lod by (simp add: two_floats_mass_tag_def mass_tag_default_def u32_bytes_def)

text \<open>
  C5. A face that \<^verbatim>\<open>mlod_face::parse\<close> decodes without error holds exactly four vertex
  descriptors, whatever its \<^verbatim>\<open>face_type\<close> and whatever the face object held before.
\<close>

theorem mlod_face_parse_four_vertices:
  assumes "mlod_face_parse r f = (None, r', f')"
  shows "length (vertices f') = 4"
  using assms unfolding mlod_face_parse_def
  apply (elim chain_ConsE chain_NilE)
  apply (clarsimp simp: read_field_None_iff in_field_iff assign_def)
  apply (drule for_each_length)
  apply simp
  done

theorem mlod_face_parse_four_vertices_witness:
  "\<exists>r' f'. mlod_face_parse (binary_reader_init triangle_face_bytes) mlod_face_zero = (None, r', f') \<and>
     face_type f' = 3 \<and> length (vertices f') = 4"
proof -
  have "fst (mlod_face_parse (binary_reader_init triangle_face_bytes) mlod_face_zero) = None"
    and ft: "face_type (snd (snd (mlod_face_parse (binary_reader_init triangle_face_bytes) mlod_face_zero))) = 3"
    by code_simp+
  then obtain r' f' where
    p: "mlod_face_parse (binary_reader_init triangle_face_bytes) mlod_face_zero = (None, r', f')"
    by (cases "mlod_face_parse (binary_reader_init triangle_face_bytes) mlod_face_zero") auto
  from mlod_face_parse_four_vertices [OF p] p ft show ?thesis by simp
qed

text \<open>
  C6. When \<^verbatim>\<open>mlod_lod::parse\<close> succeeds, the LOD's tags are not empty and the last of
  them is named "#EndOfFile#"; the name and its NUL stand among the bytes the parse
  consumed. So on a buffer that holds no such terminator from the reader's position on,
  the parse cannot succeed. When it fails, it fails with one of the "failed to read"
  messages, at a read for which fewer bytes were left than it needed (fewer than 16, the
  largest read).
\<close>

theorem lod_tags_end_with_terminator:
  assumes "mlod_lod_parse r l = (e, r', l')"
  shows "(e = None \<longrightarrow>
            tags l' \<noteq> [] \<and> tag_name (last (tags l')) = str ''#EndOfFile#'' \<and>
            (\<exists>pre post. rest r = pre @ str ''#EndOfFile#'' @ [0] @ post @ rest r')) \<and>
         ((\<nexists>pre post. rest r = pre @ str ''#EndOfFile#'' @ [0] @ post) \<longrightarrow> e \<noteq> None) \<and>
         (\<forall>m. e = Some m \<longrightarrow> m \<in> set mlod_error_messages \<and> remaining r' < 16)"
proof -
  have ok: "tags l' \<noteq> [] \<and> tag_name (last (tags l')) = str ''#EndOfFile#'' \<and>
            (\<exists>pre post. rest r = pre @ str ''#EndOfFile#'' @ [0] @ post @ rest r')"
    if "e = None"
  proof -
    from mlod_lod_parse_success [OF assms [unfolded that]] obtain ts where
      ts: "ts \<noteq> []" "tag_name (last ts) = str ''#EndOfFile#''" "tags l' = tags l @ ts"
      and bytes: "rest r = mlod_lod_bytes (l'\<lparr>tags := ts\<rparr>) @ rest r'"
      by blast
    from last_tag_bytes [OF ts(1,2)] obtain pre post where
      "concat (map mlod_tag_bytes ts) = pre @ str ''#EndOfFile#'' @ [0] @ post"
      by blast
    with bytes have "rest r =
        (signature_bytes (lod_signature l') @ u32_bytes (minor_version l') @ u32_bytes (major_version l') @
         u32_bytes (num_points l') @ u32_bytes (num_face_normals l') @ u32_bytes (num_faces l') @
         u32_bytes (lod_flags l') @
         concat (map mlod_point_bytes (points l')) @ concat (map vector3_bytes (normals l')) @
         concat (map mlod_face_bytes (faces l')) @ signature_bytes (tag_sig l') @ pre) @
        str ''#EndOfFile#'' @ [0] @ (post @ u32_bytes (resolution l')) @ rest r'"
      by (simp add: mlod_lod_bytes_def)
    then have "\<exists>pre post. rest r = pre @ str ''#EndOfFile#'' @ [0] @ post @ rest r'" by blast
    with ts show ?thesis by simp
  qed
  have fail: "m \<in> set mlod_error_messages \<and> remaining r' < 16" if "e = Some m" for m
    using forwardD [OF forward_mlod_lod_parse assms] that by (simp add: advances_def)
  have need: "e \<noteq> None" if none: "\<nexists>pre post. rest r = pre @ str ''#EndOfFile#'' @ [0] @ post"
  proof
    assume "e = None"
    from ok [OF this] obtain pre post where "rest r = pre @ str ''#EndOfFile#'' @ [0] @ post @ rest r'"
      by blast
    with none show False by blast
  qed
  from ok need fail show ?thesis by blast
qed

theorem lod_tags_end_with_terminator_witness:
  "lod_error scenario_A_lod_bytes = None \<and>
   tags (lod_of scenario_A_lod_bytes) \<noteq> [] \<and>
   tag_name (last (tags (lod_of scenario_A_lod_bytes))) = str ''#EndOfFile#'' \<and>
   lod_error (take 60 scenario_A_lod_bytes) = Some ''failed to read arma_string[n]'' \<and>
   ''failed to read arma_string[n]'' \<in> set mlod_error_messages"
proof -
  have a: "lod_error scenario_A_lod_bytes = None"
    and b: "lod_error (take 60 scenario_A_lod_bytes) = Some ''failed to read arma_string[n]''"
    by code_simp+
  from a obtain r' where ok: "mlod_lod_parse (binary_reader_init scenario_A_lod_bytes) mlod_lod_default =
      (None, r', lod_of scenario_A_lod_bytes)"
    by (auto elim: lod_parse_cases)
  obtain r2 l2 where bad: "mlod_lod_parse (binary_reader_init (take 60 scenario_A_lod_bytes)) mlod_lod_default =
      (Some ''failed to read arma_string[n]'', r2, l2)"
    using b unfolding lod_error_def
    by (cases "mlod_lod_parse (binary_reader_init (take 60 scenario_A_lod_bytes)) mlod_lod_default") auto
  from lod_tags_end_with_terminator [OF ok] lod_tags_end_with_terminator [OF bad] a b
  show ?thesis by simp
qed

text \<open>
  C7. \<^verbatim>\<open>arma_string::parse\<close> takes the bytes up to the first NUL as the string and leaves
  the reader just behind that NUL; with no NUL before the end of the buffer it fails
  with "failed to read arma_string[n]". \<^verbatim>\<open>arma_string::write\<close> appends the bytes of the
  string and one NUL (to a writer whose \<^verbatim>\<open>write_offset\<close> is the size of its data, as that of
  every writer the program builds is). So a string without a NUL, written to a fresh
  writer and parsed back, is itself.
\<close>

theorem arma_string_codec:
  "(0 \<notin> set s \<longrightarrow> rest r = s @ 0 # ys \<longrightarrow>
      arma_string_parse r out = (None, r\<lparr>current_offset := current_offset r + length s + 1\<rparr>, s)) \<and>
   (0 \<notin> set (rest r) \<longrightarrow>
      (\<exists>r' s'. arma_string_parse r out = (Some ''failed to read arma_string[n]'', r', s'))) \<and>
   (tight w \<longrightarrow>
      arma_string_write s w = \<lparr>w_data = w_data w @ s @ [0], write_offset = write_offset w + length s + 1\<rparr>) \<and>
   w_data (arma_string_write s binary_writer_init) = s @ [0] \<and>
   (0 \<notin> set s \<longrightarrow>
      arma_string_parse (binary_reader_init (w_data (arma_string_write s binary_writer_init))) out =
        (None, \<lparr>buffer = s @ [0], current_offset = length s + 1\<rparr>, s))"
proof -
  have w: "arma_string_write s w = \<lparr>w_data = w_data w @ s @ [0], write_offset = write_offset w + length s + 1\<rparr>"
    if "tight w" for w
    using that by (simp add: arma_string_write_emit arma_string_bytes_def emit_def)
  have w0: "w_data (arma_string_write s binary_writer_init) = s @ [0]"
    using w [OF tight_init] by (simp add: binary_writer_init_def)
  have p: "arma_string_parse r out = (None, r\<lparr>current_offset := current_offset r + length s + 1\<rparr>, s)"
    if "0 \<notin> set s" "rest r = s @ 0 # ys" for r ys
    using arma_string_loop_complete [OF that(2,1), of "[]"] by (simp add: arma_string_parse_def)
  have f: "\<exists>r' s'. arma_string_parse r out = (Some ''failed to read arma_string[n]'', r', s')"
    if "0 \<notin> set (rest r)"
    using arma_string_loop_fails [OF that, of "[]"] by (auto simp: arma_string_parse_def)
  have rt: "arma_string_parse (binary_reader_init (w_data (arma_string_write s binary_writer_init))) out =
        (None, \<lparr>buffer = s @ [0], current_offset = length s + 1\<rparr>, s)"
    if "0 \<notin> set s"
    using p [OF that, of "binary_reader_init (s @ [0])" "[]"]
    by (simp add: w0 binary_reader_init_def rest_def)
  from w w0 p f rt show ?thesis by blast
qed

theorem arma_string_codec_witness:
  "arma_string_parse (binary_reader_init (str ''abc'' @ [0, 7])) [] =
     (None, \<lparr>buffer = str ''abc'' @ [0, 7], current_offset = 4\<rparr>, str ''abc'') \<and>
   (\<exists>r' s'. arma_string_parse (binary_reader_init (str ''abc'')) [] =
      (Some ''failed to read arma_string[n]'', r', s')) \<and>
   arma_string_write (str ''abc'') binary_writer_init = \<lparr>w_data = str ''abc'' @ [0], write_offset = 4\<rparr> \<and>
   arma_string_parse (binary_reader_init (w_data (arma_string_write (str ''abc'') binary_writer_init))) [] =
     (None, \<lparr>buffer = str ''abc'' @ [0], current_offset = 4\<rparr>, str ''abc'')"
proof -
  have nz: "0 \<notin> set (str ''abc'')" by (simp add: str_def)
  have r1: "rest (binary_reader_init (str ''abc'' @ [0, 7])) = str ''abc'' @ 0 # [7]" by simp
  have r2: "0 \<notin> set (rest (binary_reader_init (str ''abc'')))" using nz by simp
  have len: "length (str ''abc'') = 3" by (simp add: str_def)
  from arma_string_codec [of "str ''abc''" "binary_reader_init (str ''abc'' @ [0, 7])" "[7]" "[]" binary_writer_init]
    arma_string_codec [of "str ''abc''" "binary_reader_init (str ''abc'')" "[]" "[]" binary_writer_init]
    nz r1 r2 tight_init
  show ?thesis by (simp add: len binary_reader_init_def binary_writer_init_def)
qed

text \<open>
  C8, as the code has it. An error of the document decode is one of the fixed messages
  of \<open>mlod_error_messages\<close>: "failed to read", the struct and the field of the read that
  failed. For the buffer is then the encoding of a document that decodes, cut short;
  and whichever such document one takes, the error is the message that
  \<open>mlod_p3d_fields\<close> has for the read in which the buffer ends: the first read that the
  bytes do not suffice for. None of the messages holds a path from the document or an
  element index; a failed array element is reported with the letters \<^verbatim>\<open>[n]\<close> or \<^verbatim>\<open>[m]\<close>.
\<close>

theorem decode_error_is_fixed_message:
  assumes "decode B = Inl m"
  shows "m \<in> set mlod_error_messages \<and>
         (\<exists>D zs. decode (encode D) = Inr D \<and> zs \<noteq> [] \<and> encode D = B @ zs) \<and>
         (\<forall>D zs. decode (encode D) = Inr D \<longrightarrow> zs \<noteq> [] \<longrightarrow> encode D = B @ zs \<longrightarrow>
            m = field_at (mlod_p3d_fields D) (length B))"
proof -
  from assms obtain r' D where "mlod_p3d_parse (binary_reader_init B) mlod_p3d_default = (Some m, r', D)"
    by (auto simp: decode_Inl_iff)
  from forwardD [OF forward_mlod_p3d_parse this] have "m \<in> set mlod_error_messages"
    by (simp add: advances_def)
  moreover from decode_failure_located [OF assms]
  have "\<exists>D zs. decode (encode D) = Inr D \<and> zs \<noteq> [] \<and> encode D = B @ zs" by blast
  moreover have "m = field_at (mlod_p3d_fields D) (length B)"
    if "decode (encode D) = Inr D" "zs \<noteq> []" "encode D = B @ zs" for D zs
    using decode_cut_short [OF that] assms by simp
  ultimately show ?thesis by blast
qed

theorem decode_error_is_fixed_message_witness:
  "decode (take 80 scenario_A) = Inl ''failed to read mlod_lod.resolution'' \<and>
   ''failed to read mlod_lod.resolution'' \<in> set mlod_error_messages \<and>
   decode (encode scenario_A_doc) = Inr scenario_A_doc \<and>
   encode scenario_A_doc = take 80 scenario_A @ [0x3F] \<and>
   field_at (mlod_p3d_fields scenario_A_doc) 80 = ''failed to read mlod_lod.resolution''"
proof -
  have d: "decode (take 80 scenario_A) = Inl ''failed to read mlod_lod.resolution''" by code_simp
  have e: "decode (encode scenario_A_doc) = Inr scenario_A_doc" by code_simp
  have c: "encode scenario_A_doc = take 80 scenario_A @ [0x3F]" by code_simp
  have l: "length (take 80 scenario_A) = 80" by (simp add: length_encode_scenario_A)
  from decode_error_is_fixed_message [OF d] e c
  have "''failed to read mlod_lod.resolution'' \<in> set mlod_error_messages"
    and "''failed to read mlod_lod.resolution'' =
         field_at (mlod_p3d_fields scenario_A_doc) (length (take 80 scenario_A))"
    by blast+
  with d e c show ?thesis unfolding l by simp
qed

text \<open>
  The claim as stated fails on a face cut off in its first vertex descriptor and on
  one cut off in its third: the reader stands at offset 44 in the one and at 76 in the
  other, and both errors are the same text, without the LOD, the face or the vertex.
\<close>

theorem error_path_counterexample:
  "decode (cut_in_vertices 8) = Inl ''failed to read mlod_face.vertices[n]'' \<and>
   decode (cut_in_vertices 40) = Inl ''failed to read mlod_face.vertices[n]'' \<and>
   current_offset (fst (snd (mlod_p3d_parse (binary_reader_init (cut_in_vertices 8)) mlod_p3d_default))) = 44 \<and>
   current_offset (fst (snd (mlod_p3d_parse (binary_reader_init (cut_in_vertices 40)) mlod_p3d_default))) = 76"
  by code_simp

text \<open>
  C9. A read of \<open>n = sizeof(T)\<close> bytes that would pass the end of the buffer reports
  failure and leaves the reader, and so its position, as it was; a read that fits
  returns the \<open>n\<close> bytes at the position and advances the position by exactly \<open>n\<close>.
  The position therefore moves only when the read succeeds.
\<close>

theorem binary_reader_read_frame:
  "(length (buffer r) < current_offset r + n \<longrightarrow> binary_reader_read n r = (None, r)) \<and>
   (current_offset r + n \<le> length (buffer r) \<longrightarrow>
      binary_reader_read n r =
        (Some (take n (drop (current_offset r) (buffer r))), r\<lparr>current_offset := current_offset r + n\<rparr>) \<and>
      length (take n (drop (current_offset r) (buffer r))) = n) \<and>
   (current_offset (snd (binary_reader_read n r)) \<noteq> current_offset r \<longrightarrow>
      fst (binary_reader_read n r) \<noteq> None \<and>
      current_offset (snd (binary_reader_read n r)) = current_offset r + n)"
  by (auto simp: binary_reader_read_def)

theorem binary_reader_read_frame_witness:
  "binary_reader_read 4 \<lparr>buffer = [1, 2, 3], current_offset = 1\<rparr> =
     (None, \<lparr>buffer = [1, 2, 3], current_offset = 1\<rparr>) \<and>
   binary_reader_read 2 \<lparr>buffer = [1, 2, 3], current_offset = 1\<rparr> =
     (Some [2, 3], \<lparr>buffer = [1, 2, 3], current_offset = 3\<rparr>)"
proof -
  let ?r = "\<lparr>buffer = [1, 2, 3 :: byte], current_offset = 1\<rparr>"
  have short: "length (buffer ?r) < current_offset ?r + 4"
    and fits: "current_offset ?r + 2 \<le> length (buffer ?r)" by simp_all
  from binary_reader_read_frame [of ?r 4] short
  have "binary_reader_read 4 ?r = (None, ?r)" by blast
  moreover from binary_reader_read_frame [of ?r 2] fits
  have "binary_reader_read 2 ?r =
     (Some (take 2 (drop (current_offset ?r) (buffer ?r))), ?r\<lparr>current_offset := current_offset ?r + 2\<rparr>)"
    by blast
  ultimately show ?thesis by simp
qed

text \<open>
  C10. \<^verbatim>\<open>mlod_p3d::parse\<close> never asks whether the buffer is used up. If a buffer decodes
  to \<open>D\<close>, then so does that buffer, and so does the encoding of \<open>D\<close>, with any bytes \<open>T\<close>
  appended; the appended bytes change nothing in \<open>D\<close>, and the encoding of \<open>D\<close> does not
  contain them, so a buffer with trailing bytes does not come back byte for byte.
\<close>

theorem trailing_bytes_ignored:
  assumes "decode B = Inr D"
  shows "decode (B @ T) = Inr D \<and> decode (encode D @ T) = Inr D \<and>
         (T \<noteq> [] \<longrightarrow> encode D \<noteq> B @ T \<and> encode D \<noteq> encode D @ T)"
proof -
  from assms obtain r' where p: "mlod_p3d_parse (binary_reader_init B) mlod_p3d_default = (None, r', D)"
    by (auto simp: decode_Inr_iff)
  note c = parse_document_consumes [OF p]
  have pre: "take (length (encode D)) B = encode D"
    using arg_cong [OF c(1), of "take (length (encode D))"] by simp
  have le: "length (encode D) \<le> length B" using arg_cong [OF c(1), of length] by simp
  have "take (length (encode D)) (B @ T) = encode D" using pre le by simp
  from parse_document_agree [OF p this] have 1: "decode (B @ T) = Inr D" by (simp add: decode_def)
  have "take (length (encode D)) (encode D @ T) = encode D" by simp
  from parse_document_agree [OF p this] have 2: "decode (encode D @ T) = Inr D" by (simp add: decode_def)
  have 3: "encode D \<noteq> B @ T" if "T \<noteq> []"
  proof
    assume "encode D = B @ T"
    then have "length (encode D) = length B + length T" by simp
    with le that show False by simp
  qed
  from 1 2 3 show ?thesis by simp
qed

theorem trailing_bytes_ignored_witness:
  "decode (scenario_A @ [0xAA, 0xBB]) = Inr scenario_A_doc \<and>
   encode scenario_A_doc \<noteq> scenario_A @ [0xAA, 0xBB]"
proof -
  have "[0xAA, 0xBB :: byte] \<noteq> []" by simp
  with trailing_bytes_ignored [OF decode_scenario_A, of "[0xAA, 0xBB]"] show ?thesis by blast
qed

end
